theory Spec2Isabelle
  imports
    Main
    "HOL-Library.Word"
    "HOL-Library.Char_ord"
    "HOL-Library.List_Lexorder"
    "HOL-Library.Product_Lexorder"
begin

section \<open>Tokens and scene paths\<close>

text \<open>
  The store is written against two libraries that are not part of the repository: the
  scene description library (paths, tokens, values) and the columnar file reader. Both are
  modelled here as far as \<^verbatim>\<open>parquetLayerData.cpp\<close> uses them.

  A token is its string. A path is the empty (invalid) path, a prim path, or a property
  of a prim path; the flag says whether the path is absolute, and the element list runs
  from the root downwards, so \<^verbatim>\<open>/World/Sphere1.temperature\<close> is
  \<open>PropertyPath True [''World'', ''Sphere1''] ''temperature''\<close>. Variant selections,
  relationship targets and the other path forms of the library are outside this model.
\<close>

type_synonym TfToken = string

datatype SdfPath =
    EmptyPath
  | PrimPath bool "TfToken list"
  | PropertyPath bool "TfToken list" TfToken

definition AbsoluteRootPath :: SdfPath where
  "AbsoluteRootPath = PrimPath True []"

fun IsAbsolutePath :: "SdfPath \<Rightarrow> bool" where
  "IsAbsolutePath EmptyPath = False"
| "IsAbsolutePath (PrimPath a es) = a"
| "IsAbsolutePath (PropertyPath a es n) = a"

fun IsPropertyPath :: "SdfPath \<Rightarrow> bool" where
  "IsPropertyPath EmptyPath = False"
| "IsPropertyPath (PrimPath a es) = False"
| "IsPropertyPath (PropertyPath a es n) = True"

fun GetPrimPath :: "SdfPath \<Rightarrow> SdfPath" where
  "GetPrimPath EmptyPath = EmptyPath"
| "GetPrimPath (PrimPath a es) = PrimPath a es"
| "GetPrimPath (PropertyPath a es n) = PrimPath a es"

fun GetNameToken :: "SdfPath \<Rightarrow> TfToken" where
  "GetNameToken EmptyPath = []"
| "GetNameToken (PrimPath a []) = (if a then ''/'' else ''.'')"
| "GetNameToken (PrimPath a (e # es)) = last (e # es)"
| "GetNameToken (PropertyPath a es n) = n"

text \<open>
  The parent of a property is its prim, the parent of a prim drops the last element, the
  absolute root has the empty path as parent and the empty path is its own parent. A
  relative path that cannot drop an element grows by a \<^verbatim>\<open>..\<close> element.
\<close>

fun GetParentPath :: "SdfPath \<Rightarrow> SdfPath" where
  "GetParentPath EmptyPath = EmptyPath"
| "GetParentPath (PropertyPath a es n) = PrimPath a es"
| "GetParentPath (PrimPath True []) = EmptyPath"
| "GetParentPath (PrimPath True (e # es)) = PrimPath True (butlast (e # es))"
| "GetParentPath (PrimPath False es) =
     (if es = [] \<or> last es = ''..'' then PrimPath False (es @ [''..''])
      else PrimPath False (butlast es))"

subsection \<open>Parsing a path string\<close>

definition is_identifier_start :: "char \<Rightarrow> bool" where
  "is_identifier_start c =
     (c \<in> set ''ABCDEFGHIJKLMNOPQRSTUVWXYZabcdefghijklmnopqrstuvwxyz_'')"

definition is_identifier_char :: "char \<Rightarrow> bool" where
  "is_identifier_char c = (is_identifier_start c \<or> c \<in> set ''0123456789'')"

fun IsValidIdentifier :: "string \<Rightarrow> bool" where
  "IsValidIdentifier [] = False"
| "IsValidIdentifier (c # cs) = (is_identifier_start c \<and> list_all is_identifier_char cs)"

fun split_on :: "char \<Rightarrow> string \<Rightarrow> string list" where
  "split_on d [] = [[]]"
| "split_on d (c # cs) =
     (if c = d then [] # split_on d cs
      else (case split_on d cs of [] \<Rightarrow> [[c]] | w # ws \<Rightarrow> (c # w) # ws))"

definition IsValidNamespacedIdentifier :: "string \<Rightarrow> bool" where
  "IsValidNamespacedIdentifier n = list_all IsValidIdentifier (split_on CHR '':'' n)"

text \<open>
  The constructor \<^verbatim>\<open>SdfPath(const std::string&)\<close>: a string that is not a path yields the
  empty path (the library reports a warning and does not throw). The model accepts
  slash-separated identifiers with an optional leading slash and an optional
  \<^verbatim>\<open>.property\<close> suffix, and the two roots \<^verbatim>\<open>/\<close> and \<^verbatim>\<open>.\<close>.
\<close>

definition SdfPath_of_string :: "string \<Rightarrow> SdfPath" where
  "SdfPath_of_string s =
     (if s = [] then EmptyPath
      else if s = ''/'' then AbsoluteRootPath
      else if s = ''.'' then PrimPath False []
      else
        (let a = (hd s = CHR ''/'');
             body = (if a then tl s else s);
             prim = takeWhile (\<lambda>c. c \<noteq> CHR ''.'') body;
             rest = dropWhile (\<lambda>c. c \<noteq> CHR ''.'') body;
             es = split_on CHR ''/'' prim
         in if \<not> list_all IsValidIdentifier es then EmptyPath
            else if rest = [] then PrimPath a es
            else if IsValidNamespacedIdentifier (tl rest) then PropertyPath a es (tl rest)
            else EmptyPath))"

text \<open>
  \<^verbatim>\<open>SdfPath::AppendProperty\<close>: only a prim path other than the absolute root takes a
  property, and only under a valid name; otherwise the result is the empty path.
\<close>

fun AppendProperty :: "SdfPath \<Rightarrow> TfToken \<Rightarrow> SdfPath" where
  "AppendProperty (PrimPath a es) n =
     (if (a \<and> es = []) \<or> \<not> IsValidNamespacedIdentifier n then EmptyPath
      else PropertyPath a es n)"
| "AppendProperty p n = EmptyPath"

subsection \<open>The order of paths\<close>

text \<open>
  \<^verbatim>\<open>std::map<SdfPath, ...>\<close> iterates in the order of \<^verbatim>\<open>SdfPath::operator<\<close>: the empty
  path first, absolute paths before relative ones, then the prim parts compared element
  by element (an ancestor before its descendants, names compared as byte strings), then
  a path without property before one with, then the property names.
\<close>

fun path_key :: "SdfPath \<Rightarrow> nat \<times> TfToken list \<times> TfToken list" where
  "path_key EmptyPath = (0, [], [])"
| "path_key (PrimPath a es) = (if a then 1 else 2, es, [])"
| "path_key (PropertyPath a es n) = (if a then 1 else 2, es, [n])"

definition path_less :: "SdfPath \<Rightarrow> SdfPath \<Rightarrow> bool" where
  "path_less p q = (path_key p < path_key q)"

section \<open>The columnar file\<close>

text \<open>
  A file is its schema (the column names, in order) and its row groups. A row group has
  a row count and one column chunk per schema column. A chunk carries the values that a
  batch read of the chunk decodes, tagged with the physical type of the column (what
  \<^verbatim>\<open>colReader->type()\<close> reports), and a flag that says whether the batch read of the
  chunk throws. Asking for a row group or for a column that the file does not have
  throws as well. A file system maps a file name to the file that the reader opens, or
  to nothing when opening throws.
\<close>

datatype ColumnValues =
    BoolValues "bool list"
  | Int32Values "32 word list"
  | Int64Values "64 word list"
  | Int96Values "96 word list"
  | FloatValues "32 word list"
  | DoubleValues "64 word list"
  | ByteArrayValues "string list"
  | FixedLenByteArrayValues "string list"

record ColumnChunk =
  chunk_values :: ColumnValues
  chunk_throws :: bool

record RowGroup =
  num_rows :: nat
  columns :: "ColumnChunk list"

record ParquetFile =
  schema :: "string list"
  row_groups :: "RowGroup list"

type_synonym FileSystem = "string \<rightharpoonup> ParquetFile"

datatype error = ParquetException | UndefinedBehaviour

text \<open>
  \<^verbatim>\<open>ReadBatch(batch_size, ..., values, &valuesRead)\<close> on a chunk read as byte arrays: at
  most \<open>batch_size\<close> values. Open casts the reader of the path column to a byte-array
  reader whatever the column's type; on another type the cast reader is not defined.
\<close>

definition ReadBatch_ByteArray :: "nat \<Rightarrow> ColumnChunk \<Rightarrow> error + string list" where
  "ReadBatch_ByteArray batch_size chunk =
     (if chunk_throws chunk then Inl ParquetException
      else (case chunk_values chunk of
              ByteArrayValues vs \<Rightarrow> Inr (take batch_size vs)
            | _ \<Rightarrow> Inl UndefinedBehaviour))"

section \<open>Values\<close>

text \<open>
  Floating-point payloads are carried, never computed with: a \<^verbatim>\<open>float\<close> is its 32 bits
  and a \<^verbatim>\<open>double\<close> its 64 bits.
\<close>

datatype SdfSpecifier = SdfSpecifierDef | SdfSpecifierOver | SdfSpecifierClass

datatype SdfVariability = SdfVariabilityVarying | SdfVariabilityUniform

datatype SdfSpecType =
  SdfSpecTypeUnknown | SdfSpecTypeAttribute | SdfSpecTypePrim | SdfSpecTypePseudoRoot

datatype SdfValueTypeName =
  TypeFloat | TypeDouble | TypeInt | TypeInt64 | TypeBool | TypeString

fun GetAsToken :: "SdfValueTypeName \<Rightarrow> TfToken" where
  "GetAsToken TypeFloat = ''float''"
| "GetAsToken TypeDouble = ''double''"
| "GetAsToken TypeInt = ''int''"
| "GetAsToken TypeInt64 = ''int64''"
| "GetAsToken TypeBool = ''bool''"
| "GetAsToken TypeString = ''string''"

datatype VtValue =
    VtEmpty
  | VtFloat "32 word"
  | VtDouble "64 word"
  | VtInt "32 word"
  | VtInt64 "64 word"
  | VtBool bool
  | VtString string
  | VtToken TfToken
  | VtTokenArray "TfToken list"
  | VtFloatArray "32 word list"
  | VtDoubleArray "64 word list"
  | VtIntArray "32 word list"
  | VtInt64Array "64 word list"
  | VtBoolArray "bool list"
  | VtStringArray "string list"
  | VtSpecifier SdfSpecifier
  | VtVariability SdfVariability
  | VtValueTypeName SdfValueTypeName

definition Default :: TfToken where "Default = ''default''"
definition TypeName :: TfToken where "TypeName = ''typeName''"
definition Variability :: TfToken where "Variability = ''variability''"
definition Custom :: TfToken where "Custom = ''custom''"
definition Specifier :: TfToken where "Specifier = ''specifier''"
definition PrimChildren :: TfToken where "PrimChildren = ''primChildren''"
definition PropertyChildren :: TfToken where "PropertyChildren = ''properties''"

section \<open>The layer data\<close>

text \<open>
  \<^verbatim>\<open>struct ParquetLocation { int rowGroup; int64_t rowOffset; }\<close>. Both members are
  loop counters that run from 0 up to a count of the file, so they are naturals here.
\<close>

record ParquetLocation =
  rowGroup :: nat
  rowOffset :: nat

text \<open>
  The members of \<^verbatim>\<open>ParquetLayerData\<close>. The path index is a \<^verbatim>\<open>std::map\<close> that the
  hierarchy builder iterates, so it is the list of its entries in ascending key order.
  The other containers are only looked up: a set, a map, and for the two-level block
  cache a function from the field to the map of its row groups (the outer
  \<^verbatim>\<open>operator[]\<close> creates an empty inner map for a new field). \<open>reader\<close> is the open
  file, absent before \<^verbatim>\<open>Open\<close>. \<open>decodes\<close> is not a member: it logs the batch reads
  issued to the file reader, as (row group, column index), oldest first.
\<close>

record ParquetLayerData =
  pathIndex :: "(SdfPath \<times> ParquetLocation) list"
  allPaths :: "SdfPath set"
  childrenMap :: "SdfPath \<rightharpoonup> TfToken list"
  propertyNames :: "TfToken list"
  blockCache :: "TfToken \<Rightarrow> nat \<rightharpoonup> VtValue"
  reader :: "ParquetFile option"
  decodes :: "(nat \<times> nat) list"

definition ParquetLayerData_init :: ParquetLayerData where
  "ParquetLayerData_init =
     \<lparr> pathIndex = [], allPaths = {}, childrenMap = Map.empty, propertyNames = [],
       blockCache = (\<lambda>field. Map.empty), reader = None, decodes = [] \<rparr>"

text \<open>\<^verbatim>\<open>_pathIndex[path] = loc\<close>: insert in key order, or overwrite the entry of the key.\<close>

fun index_assign ::
  "SdfPath \<Rightarrow> ParquetLocation \<Rightarrow> (SdfPath \<times> ParquetLocation) list
     \<Rightarrow> (SdfPath \<times> ParquetLocation) list" where
  "index_assign k v [] = [(k, v)]"
| "index_assign k v ((k', v') # m) =
     (if path_less k k' then (k, v) # (k', v') # m
      else if k = k' then (k, v) # m
      else (k', v') # index_assign k v m)"

definition index_find :: "ParquetLayerData \<Rightarrow> SdfPath \<Rightarrow> ParquetLocation option" where
  "index_find s path = map_of (pathIndex s) path"

definition index_count :: "ParquetLayerData \<Rightarrow> SdfPath \<Rightarrow> bool" where
  "index_count s path = (index_find s path \<noteq> None)"

section \<open>Opening a file\<close>

text \<open>
  The schema loop of \<^verbatim>\<open>Open\<close>: the last column named \<^verbatim>\<open>path\<close> is the path column
  (\<open>None\<close> stands for the index -1), every other column name is a property name.
\<close>

fun scan_schema ::
  "nat \<Rightarrow> string list \<Rightarrow> nat option \<times> TfToken list \<Rightarrow> nat option \<times> TfToken list" where
  "scan_schema i [] (pathColIdx, props) = (pathColIdx, props)"
| "scan_schema i (name # names) (pathColIdx, props) =
     (if name = ''path'' then scan_schema (i + 1) names (Some i, props)
      else scan_schema (i + 1) names (pathColIdx, props @ [name]))"

text \<open>The loop over the values read from one row group, from row offset \<open>i\<close> on.\<close>

fun index_values ::
  "nat \<Rightarrow> nat \<Rightarrow> string list \<Rightarrow> (SdfPath \<times> ParquetLocation) list
     \<Rightarrow> (SdfPath \<times> ParquetLocation) list" where
  "index_values rg i [] idx = idx"
| "index_values rg i (pathStr # values) idx =
     (let path = SdfPath_of_string pathStr
      in index_values rg (i + 1) values
           (if IsAbsolutePath path
            then index_assign path \<lparr> rowGroup = rg, rowOffset = i \<rparr> idx
            else idx))"

text \<open>
  The loop over the row groups, from row group \<open>rg\<close> on. A throw leaves the loop with
  the entries recorded so far; so does the use of a wrongly cast reader.
\<close>

fun index_row_groups ::
  "nat \<Rightarrow> nat \<Rightarrow> RowGroup list \<Rightarrow> ParquetLayerData \<Rightarrow> error option \<times> ParquetLayerData" where
  "index_row_groups pathColIdx rg [] s = (None, s)"
| "index_row_groups pathColIdx rg (g # gs) s =
     (if length (columns g) \<le> pathColIdx then (Some ParquetException, s)
      else
        (case ReadBatch_ByteArray (num_rows g) (columns g ! pathColIdx) of
           Inl e \<Rightarrow> (Some e, s)
         | Inr values \<Rightarrow>
             index_row_groups pathColIdx (rg + 1) gs
               (s\<lparr> pathIndex := index_values rg 0 values (pathIndex s),
                   decodes := decodes s @ [(rg, pathColIdx)] \<rparr>)))"

subsection \<open>The path hierarchy\<close>

text \<open>
  One turn of the loop that walks from a path up to the root: the current path is
  registered as a child of its parent, once, and the parent joins the set of all paths
  unless it is the root.
\<close>

definition register_child :: "SdfPath \<Rightarrow> ParquetLayerData \<Rightarrow> ParquetLayerData" where
  "register_child current s =
     (let parent = GetParentPath current;
          childName = GetNameToken current;
          children = (case childrenMap s parent of None \<Rightarrow> [] | Some cs \<Rightarrow> cs);
          children' = (if childName \<in> set children then children else children @ [childName]);
          s1 = s\<lparr> childrenMap := (childrenMap s)(parent \<mapsto> children') \<rparr>
      in if parent \<noteq> AbsoluteRootPath
         then s1\<lparr> allPaths := insert parent (allPaths s1) \<rparr>
         else s1)"

text \<open>
  \<^verbatim>\<open>while (current != SdfPath::AbsoluteRootPath())\<close>. The loop does not end on a path
  that never reaches the root (the empty path, a relative path); not returning is
  \<open>None\<close>.
\<close>

partial_function (option) walk_up :: "SdfPath \<Rightarrow> ParquetLayerData \<Rightarrow> ParquetLayerData option" where
  "walk_up current s =
     (if current = AbsoluteRootPath then Some s
      else walk_up (GetParentPath current) (register_child current s))"

declare walk_up.simps [code]

fun build_loop ::
  "(SdfPath \<times> ParquetLocation) list \<Rightarrow> ParquetLayerData \<Rightarrow> ParquetLayerData option" where
  "build_loop [] s = Some s"
| "build_loop ((path, loc) # rest) s =
     (case walk_up path (s\<lparr> allPaths := insert path (allPaths s) \<rparr>) of
        None \<Rightarrow> None
      | Some s' \<Rightarrow> build_loop rest s')"

definition BuildPathHierarchy :: "ParquetLayerData \<Rightarrow> ParquetLayerData option" where
  "BuildPathHierarchy s =
     build_loop (pathIndex s) (s\<lparr> allPaths := {}, childrenMap := Map.empty \<rparr>)"

text \<open>
  \<^verbatim>\<open>Open\<close> returns false when the reader cannot open the file, when no column is named
  \<^verbatim>\<open>path\<close>, and when a read throws (the \<^verbatim>\<open>catch\<close>); the object keeps what was stored
  before the return. The outer \<open>option\<close> is the termination of the hierarchy loop.
\<close>

definition Open ::
  "FileSystem \<Rightarrow> string \<Rightarrow> ParquetLayerData \<Rightarrow> (error + bool \<times> ParquetLayerData) option" where
  "Open fs filePath s =
     (case fs filePath of
        None \<Rightarrow> Some (Inr (False, s))
      | Some file \<Rightarrow>
          (case scan_schema 0 (schema file) (None, []) of
             (None, props) \<Rightarrow>
               Some (Inr (False, s\<lparr> reader := Some file, propertyNames := props \<rparr>))
           | (Some pathColIdx, props) \<Rightarrow>
               (case index_row_groups pathColIdx 0 (row_groups file)
                       (s\<lparr> reader := Some file, propertyNames := props \<rparr>) of
                  (Some ParquetException, s') \<Rightarrow> Some (Inr (False, s'))
                | (Some UndefinedBehaviour, s') \<Rightarrow> Some (Inl UndefinedBehaviour)
                | (None, s') \<Rightarrow>
                    (case BuildPathHierarchy s' of
                       None \<Rightarrow> None
                     | Some s'' \<Rightarrow> Some (Inr (True, s''))))))"

text \<open>
  \<^verbatim>\<open>ParquetFileFormat::Read\<close> creates a fresh data object, opens it, and hands it to the
  layer only when \<^verbatim>\<open>Open\<close> returned true.
\<close>

definition Read :: "FileSystem \<Rightarrow> string \<Rightarrow> (error + ParquetLayerData option) option" where
  "Read fs resolvedPath =
     (case Open fs resolvedPath ParquetLayerData_init of
        None \<Rightarrow> None
      | Some (Inl e) \<Rightarrow> Some (Inl e)
      | Some (Inr (ok, s)) \<Rightarrow> Some (Inr (if ok then Some s else None)))"

section \<open>The block cache\<close>

fun find_column :: "nat \<Rightarrow> string list \<Rightarrow> TfToken \<Rightarrow> nat option" where
  "find_column i [] field = None"
| "find_column i (name # names) field =
     (if name = field then Some i else find_column (i + 1) names field)"

text \<open>
  A numeric or boolean block is an array of \<open>rowsInGroup\<close> zero elements whose front the
  batch read overwrites; a string block has as many elements as values were read.
\<close>

definition read_into :: "nat \<Rightarrow> 'a \<Rightarrow> 'a list \<Rightarrow> 'a list" where
  "read_into rowsInGroup zero vs =
     take rowsInGroup vs @ replicate (rowsInGroup - length (take rowsInGroup vs)) zero"

text \<open>
  \<^verbatim>\<open>_LoadBlock\<close>: nothing to do when the entry exists. Otherwise the row group reader is
  asked for first (a null \<^verbatim>\<open>_reader\<close> is dereferenced there), then the column of the
  field is looked up by name, and a column of one of six physical types is read in one
  batch and stored; \<open>store_block\<close> is that read and the assignment to the cache. A
  column of another type is left alone.
\<close>

definition store_block ::
  "TfToken \<Rightarrow> nat \<Rightarrow> nat \<Rightarrow> ColumnChunk \<Rightarrow> VtValue \<Rightarrow> ParquetLayerData
     \<Rightarrow> error + ParquetLayerData" where
  "store_block field rg colIdx chunk data s =
     (if chunk_throws chunk then Inl ParquetException
      else Inr (s\<lparr> blockCache := (blockCache s)(field := (blockCache s field)(rg \<mapsto> data)),
                  decodes := decodes s @ [(rg, colIdx)] \<rparr>))"

definition LoadBlock :: "TfToken \<Rightarrow> nat \<Rightarrow> ParquetLayerData \<Rightarrow> error + ParquetLayerData" where
  "LoadBlock field rg s =
     (if blockCache s field rg \<noteq> None then Inr s
      else
        (case reader s of
           None \<Rightarrow> Inl UndefinedBehaviour
         | Some file \<Rightarrow>
             if length (row_groups file) \<le> rg then Inl ParquetException
             else
               (case find_column 0 (schema file) field of
                  None \<Rightarrow> Inr s
                | Some colIdx \<Rightarrow>
                    (let g = row_groups file ! rg in
                     if length (columns g) \<le> colIdx then Inl ParquetException
                     else
                       (let chunk = columns g ! colIdx; rowsInGroup = num_rows g in
                        case chunk_values chunk of
                          FloatValues vs \<Rightarrow>
                            store_block field rg colIdx chunk
                              (VtFloatArray (read_into rowsInGroup 0 vs)) s
                        | DoubleValues vs \<Rightarrow>
                            store_block field rg colIdx chunk
                              (VtDoubleArray (read_into rowsInGroup 0 vs)) s
                        | Int32Values vs \<Rightarrow>
                            store_block field rg colIdx chunk
                              (VtIntArray (read_into rowsInGroup 0 vs)) s
                        | Int64Values vs \<Rightarrow>
                            store_block field rg colIdx chunk
                              (VtInt64Array (read_into rowsInGroup 0 vs)) s
                        | BoolValues vs \<Rightarrow>
                            store_block field rg colIdx chunk
                              (VtBoolArray (read_into rowsInGroup False vs)) s
                        | ByteArrayValues vs \<Rightarrow>
                            store_block field rg colIdx chunk
                              (VtStringArray (take rowsInGroup vs)) s
                        | _ \<Rightarrow> Inr s)))))"

text \<open>
  \<^verbatim>\<open>_blockCache[field][rowGroup]\<close>: the entry, or a new empty value that the lookup
  itself stores.
\<close>

definition cache_at :: "TfToken \<Rightarrow> nat \<Rightarrow> ParquetLayerData \<Rightarrow> VtValue \<times> ParquetLayerData" where
  "cache_at field rg s =
     (case blockCache s field rg of
        Some block \<Rightarrow> (block, s)
      | None \<Rightarrow>
          (VtEmpty, s\<lparr> blockCache := (blockCache s)(field := (blockCache s field)(rg \<mapsto> VtEmpty)) \<rparr>))"

section \<open>Queries\<close>

definition HasSpec :: "ParquetLayerData \<Rightarrow> SdfPath \<Rightarrow> bool" where
  "HasSpec s path =
     (if path = AbsoluteRootPath then True
      else if IsPropertyPath path then
        (let primPath = GetPrimPath path; propName = GetNameToken path
         in index_count s primPath \<and> propName \<in> set (propertyNames s))
      else path \<in> allPaths s)"

definition GetSpecType :: "ParquetLayerData \<Rightarrow> SdfPath \<Rightarrow> SdfSpecType" where
  "GetSpecType s path =
     (if path = AbsoluteRootPath then SdfSpecTypePseudoRoot
      else if IsPropertyPath path then
        (let primPath = GetPrimPath path; propName = GetNameToken path
         in if index_count s primPath \<and> propName \<in> set (propertyNames s)
            then SdfSpecTypeAttribute else SdfSpecTypeUnknown)
      else if path \<in> allPaths s then SdfSpecTypePrim
      else SdfSpecTypeUnknown)"

text \<open>
  The element of a cached block at a row offset, as a value of the element type. The
  arrays are indexed without a bounds check; no branch is taken for a value that is not
  one of the six arrays, and \<^verbatim>\<open>Get\<close> then returns the empty value.
\<close>

definition element_at :: "'a list \<Rightarrow> nat \<Rightarrow> ('a \<Rightarrow> VtValue) \<Rightarrow> error + VtValue" where
  "element_at xs i wrap = (if i < length xs then Inr (wrap (xs ! i)) else Inl UndefinedBehaviour)"

fun block_element :: "VtValue \<Rightarrow> nat \<Rightarrow> error + VtValue" where
  "block_element (VtFloatArray xs) i = element_at xs i VtFloat"
| "block_element (VtDoubleArray xs) i = element_at xs i VtDouble"
| "block_element (VtIntArray xs) i = element_at xs i VtInt"
| "block_element (VtInt64Array xs) i = element_at xs i VtInt64"
| "block_element (VtBoolArray xs) i = element_at xs i VtBool"
| "block_element (VtStringArray xs) i = element_at xs i VtString"
| "block_element block i = Inr VtEmpty"

fun block_type :: "VtValue \<Rightarrow> SdfValueTypeName option" where
  "block_type (VtFloatArray xs) = Some TypeFloat"
| "block_type (VtDoubleArray xs) = Some TypeDouble"
| "block_type (VtIntArray xs) = Some TypeInt"
| "block_type (VtInt64Array xs) = Some TypeInt64"
| "block_type (VtBoolArray xs) = Some TypeBool"
| "block_type (VtStringArray xs) = Some TypeString"
| "block_type block = None"

text \<open>
  \<^verbatim>\<open>Get\<close> is \<^verbatim>\<open>const\<close> but fills the \<^verbatim>\<open>mutable\<close> block cache, so it returns the data
  with the value. A throw of the file reader leaves \<^verbatim>\<open>Get\<close> uncaught.
\<close>

definition Get ::
  "ParquetLayerData \<Rightarrow> SdfPath \<Rightarrow> TfToken \<Rightarrow> error + VtValue \<times> ParquetLayerData" where
  "Get s path field =
     (if field = PrimChildren then
        (case childrenMap s path of
           Some children \<Rightarrow> Inr (VtTokenArray children, s)
         | None \<Rightarrow> Inr (VtTokenArray [], s))
      else if field = PropertyChildren \<and> index_count s path then
        Inr (VtTokenArray (propertyNames s), s)
      else if field = Specifier \<and> path \<in> allPaths s then
        Inr (VtSpecifier SdfSpecifierOver, s)
      else if IsPropertyPath path then
        (let primPath = GetPrimPath path; propName = GetNameToken path in
         case index_find s primPath of
           None \<Rightarrow> Inr (VtEmpty, s)
         | Some loc \<Rightarrow>
             if propName \<in> set (propertyNames s) then
               (if field = Default then
                  (case LoadBlock propName (rowGroup loc) s of
                     Inl e \<Rightarrow> Inl e
                   | Inr s1 \<Rightarrow>
                       (case cache_at propName (rowGroup loc) s1 of
                          (block, s2) \<Rightarrow>
                            (case block_element block (rowOffset loc) of
                               Inl e \<Rightarrow> Inl e
                             | Inr v \<Rightarrow> Inr (v, s2))))
                else if field = TypeName then
                  (case LoadBlock propName (rowGroup loc) s of
                     Inl e \<Rightarrow> Inl e
                   | Inr s1 \<Rightarrow>
                       (case cache_at propName (rowGroup loc) s1 of
                          (block, s2) \<Rightarrow>
                            (case block_type block of
                               Some t \<Rightarrow> Inr (VtToken (GetAsToken t), s2)
                             | None \<Rightarrow> Inr (VtEmpty, s2))))
                else if field = Variability then Inr (VtVariability SdfVariabilityVarying, s)
                else if field = Custom then Inr (VtBool False, s)
                else Inr (VtEmpty, s))
             else Inr (VtEmpty, s))
      else Inr (VtEmpty, s))"

text \<open>
  \<^verbatim>\<open>Has(path, field, VtValue* value)\<close> called with a value to fill: the result is the
  returned flag and what was written to \<^verbatim>\<open>*value\<close>, \<open>None\<close> when nothing was written.
  The trace line written to the error stream is left out.
\<close>

definition Has ::
  "ParquetLayerData \<Rightarrow> SdfPath \<Rightarrow> TfToken
     \<Rightarrow> error + (bool \<times> VtValue option) \<times> ParquetLayerData" where
  "Has s path field =
     (if IsPropertyPath path then
        (let primPath = GetPrimPath path; propName = GetNameToken path in
         case index_find s primPath of
           None \<Rightarrow> Inr ((False, None), s)
         | Some loc \<Rightarrow>
             if propName \<in> set (propertyNames s) then
               (if field = Default then
                  (case Get s path field of
                     Inl e \<Rightarrow> Inl e
                   | Inr (val, s1) \<Rightarrow>
                       (let hasVal = (val \<noteq> VtEmpty)
                        in Inr ((hasVal, if hasVal then Some val else None), s1)))
                else if field = TypeName then
                  (case LoadBlock propName (rowGroup loc) s of
                     Inl e \<Rightarrow> Inl e
                   | Inr s1 \<Rightarrow>
                       (case cache_at propName (rowGroup loc) s1 of
                          (block, s2) \<Rightarrow>
                            Inr ((True, map_option VtValueTypeName (block_type block)), s2)))
                else if field = Variability then
                  Inr ((True, Some (VtVariability SdfVariabilityVarying)), s)
                else if field = Custom then Inr ((True, Some (VtBool False)), s)
                else Inr ((False, None), s))
             else Inr ((False, None), s))
      else if field = PrimChildren \<and> (childrenMap s path \<noteq> None \<or> path = AbsoluteRootPath) then
        (case Get s path field of
           Inl e \<Rightarrow> Inl e
         | Inr (val, s1) \<Rightarrow> Inr ((True, Some val), s1))
      else if field = PropertyChildren \<and> index_count s path then
        Inr ((True, Some (VtTokenArray (propertyNames s))), s)
      else if field = Specifier \<and> path \<in> allPaths s then
        Inr ((True, Some (VtSpecifier SdfSpecifierOver)), s)
      else Inr ((False, None), s))"

definition List :: "ParquetLayerData \<Rightarrow> SdfPath \<Rightarrow> TfToken list" where
  "List s path =
     (if IsPropertyPath path then [Default, TypeName, Variability, Custom]
      else
        (if childrenMap s path \<noteq> None \<or> path = AbsoluteRootPath then [PrimChildren] else []) @
        (if path \<in> allPaths s then [Specifier] else []) @
        (if index_count s path \<and> propertyNames s \<noteq> [] then [PropertyChildren] else []))"

section \<open>Mutation\<close>

text \<open>Every mutating override has an empty body.\<close>

definition CreateSpec :: "ParquetLayerData \<Rightarrow> SdfPath \<Rightarrow> SdfSpecType \<Rightarrow> ParquetLayerData" where
  "CreateSpec s path specType = s"

definition Set :: "ParquetLayerData \<Rightarrow> SdfPath \<Rightarrow> TfToken \<Rightarrow> VtValue \<Rightarrow> ParquetLayerData" where
  "Set s path field val = s"

definition Erase :: "ParquetLayerData \<Rightarrow> SdfPath \<Rightarrow> TfToken \<Rightarrow> ParquetLayerData" where
  "Erase s path field = s"

definition EraseSpec :: "ParquetLayerData \<Rightarrow> SdfPath \<Rightarrow> ParquetLayerData" where
  "EraseSpec s path = s"

definition MoveSpec :: "ParquetLayerData \<Rightarrow> SdfPath \<Rightarrow> SdfPath \<Rightarrow> ParquetLayerData" where
  "MoveSpec s oldPath newPath = s"

definition SetTimeSample ::
  "ParquetLayerData \<Rightarrow> SdfPath \<Rightarrow> 64 word \<Rightarrow> VtValue \<Rightarrow> ParquetLayerData" where
  "SetTimeSample s path time val = s"

definition EraseTimeSample :: "ParquetLayerData \<Rightarrow> SdfPath \<Rightarrow> 64 word \<Rightarrow> ParquetLayerData" where
  "EraseTimeSample s path time = s"

text \<open>A mutation call with its arguments, and a sequence of calls run in order.\<close>

datatype Mutation =
    CallCreateSpec SdfPath SdfSpecType
  | CallSet SdfPath TfToken VtValue
  | CallErase SdfPath TfToken
  | CallEraseSpec SdfPath
  | CallMoveSpec SdfPath SdfPath
  | CallSetTimeSample SdfPath "64 word" VtValue
  | CallEraseTimeSample SdfPath "64 word"

fun mutate :: "ParquetLayerData \<Rightarrow> Mutation \<Rightarrow> ParquetLayerData" where
  "mutate s (CallCreateSpec path specType) = CreateSpec s path specType"
| "mutate s (CallSet path field val) = Set s path field val"
| "mutate s (CallErase path field) = Erase s path field"
| "mutate s (CallEraseSpec path) = EraseSpec s path"
| "mutate s (CallMoveSpec oldPath newPath) = MoveSpec s oldPath newPath"
| "mutate s (CallSetTimeSample path time val) = SetTimeSample s path time val"
| "mutate s (CallEraseTimeSample path time) = EraseTimeSample s path time"

fun mutate_all :: "ParquetLayerData \<Rightarrow> Mutation list \<Rightarrow> ParquetLayerData" where
  "mutate_all s [] = s"
| "mutate_all s (m # ms) = mutate_all (mutate s m) ms"

section \<open>Vocabulary of the properties\<close>

subsection \<open>The rows of the path column\<close>

text \<open>
  The path column of a schema is its last column named \<^verbatim>\<open>path\<close>; the column of a field
  is the first column of that name, which is the one the block cache reads.
\<close>

definition is_path_column :: "string list \<Rightarrow> nat \<Rightarrow> bool" where
  "is_path_column sch c =
     (c < length sch \<and> sch ! c = ''path'' \<and> (\<forall>j < length sch. c < j \<longrightarrow> sch ! j \<noteq> ''path''))"

definition is_column_of :: "string list \<Rightarrow> TfToken \<Rightarrow> nat \<Rightarrow> bool" where
  "is_column_of sch field c = (c < length sch \<and> sch ! c = field \<and> (\<forall>j < c. sch ! j \<noteq> field))"

text \<open>
  The read of the path chunk of a row group throws (also when the row group has no such
  chunk), or is a read through a wrongly cast reader, or yields the values of the chunk,
  at most as many as the row group has rows.
\<close>

fun is_byte_array :: "ColumnValues \<Rightarrow> bool" where
  "is_byte_array (ByteArrayValues vs) = True"
| "is_byte_array vs = False"

definition path_chunk_throws :: "nat \<Rightarrow> RowGroup \<Rightarrow> bool" where
  "path_chunk_throws c g = (length (columns g) \<le> c \<or> chunk_throws (columns g ! c))"

definition path_chunk_miscast :: "nat \<Rightarrow> RowGroup \<Rightarrow> bool" where
  "path_chunk_miscast c g =
     (c < length (columns g) \<and> \<not> chunk_throws (columns g ! c) \<and>
      \<not> is_byte_array (chunk_values (columns g ! c)))"

definition path_values :: "nat \<Rightarrow> RowGroup \<Rightarrow> string list" where
  "path_values c g =
     (case chunk_values (columns g ! c) of ByteArrayValues vs \<Rightarrow> take (num_rows g) vs | _ \<Rightarrow> [])"

text \<open>
  The scan throws when the path chunk of some row group throws and no earlier row group
  sent the scan through a wrongly cast reader; it completes when no row group does
  either.
\<close>

definition scan_throws :: "nat \<Rightarrow> RowGroup list \<Rightarrow> bool" where
  "scan_throws c gs =
     (\<exists>k < length gs. path_chunk_throws c (gs ! k) \<and> (\<forall>j < k. \<not> path_chunk_miscast c (gs ! j)))"

definition scan_completes :: "nat \<Rightarrow> RowGroup list \<Rightarrow> bool" where
  "scan_completes c gs =
     (\<forall>g \<in> set gs. \<not> path_chunk_throws c g \<and> \<not> path_chunk_miscast c g)"

text \<open>
  The rows of the path column in scan order, row group after row group and row after
  row, each with its storage location; the location of the last row that holds a given
  absolute path; and the absolute paths in scan order.
\<close>

definition located :: "nat \<Rightarrow> nat \<Rightarrow> string list \<Rightarrow> (string \<times> ParquetLocation) list" where
  "located rg i vs = map (\<lambda>(j, v). (v, \<lparr> rowGroup = rg, rowOffset = j \<rparr>)) (enumerate i vs)"

definition scanned_rows_from :: "nat \<Rightarrow> nat \<Rightarrow> RowGroup list \<Rightarrow> (string \<times> ParquetLocation) list" where
  "scanned_rows_from c rg gs =
     concat (map (\<lambda>(k, g). located k 0 (path_values c g)) (enumerate rg gs))"

fun last_location :: "SdfPath \<Rightarrow> (string \<times> ParquetLocation) list \<Rightarrow> ParquetLocation option" where
  "last_location path [] = None"
| "last_location path ((v, loc) # rows) =
     (case last_location path rows of
        Some l \<Rightarrow> Some l
      | None \<Rightarrow> if SdfPath_of_string v = path \<and> IsAbsolutePath path then Some loc else None)"

definition scanned_paths :: "ParquetFile \<Rightarrow> nat \<Rightarrow> SdfPath list" where
  "scanned_paths pf c =
     filter IsAbsolutePath (map (\<lambda>(str, loc). SdfPath_of_string str) (scanned_rows_from c 0 (row_groups pf)))"

subsection \<open>Ancestors and the walk to the root\<close>

text \<open>
  The strict ancestors of a path are its parent and the strict ancestors of its parent,
  up to the absolute root, which has none.
\<close>

inductive strict_ancestor :: "SdfPath \<Rightarrow> SdfPath \<Rightarrow> bool" where
  parent: "p \<noteq> AbsoluteRootPath \<Longrightarrow> strict_ancestor (GetParentPath p) p"
| above: "p \<noteq> AbsoluteRootPath \<Longrightarrow> strict_ancestor a (GetParentPath p) \<Longrightarrow> strict_ancestor a p"

text \<open>
  The paths that the walk from an absolute path visits, in order: the path, its parent,
  and so on, the root excluded. The depth of a path bounds the length of the walk.
\<close>

fun path_depth :: "SdfPath \<Rightarrow> nat" where
  "path_depth EmptyPath = 0"
| "path_depth (PrimPath a es) = length es"
| "path_depth (PropertyPath a es n) = Suc (length es)"

fun steps :: "nat \<Rightarrow> SdfPath \<Rightarrow> SdfPath list" where
  "steps 0 p = []"
| "steps (Suc n) p = (if p = AbsoluteRootPath then [] else p # steps n (GetParentPath p))"

definition walk_steps :: "SdfPath \<Rightarrow> SdfPath list" where
  "walk_steps p = steps (path_depth p) p"

text \<open>
  The names registered under a parent when the walks from a list of paths are run one
  after the other, and the children that result: every name once, at the place of its
  first registration.
\<close>

definition add1 :: "TfToken \<Rightarrow> TfToken list \<Rightarrow> TfToken list" where
  "add1 n acc = (if n \<in> set acc then acc else acc @ [n])"

definition first_seen :: "TfToken list \<Rightarrow> TfToken list" where
  "first_seen names = fold add1 names []"

definition discovered_names :: "SdfPath list \<Rightarrow> SdfPath \<Rightarrow> TfToken list" where
  "discovered_names paths parent =
     map GetNameToken (filter (\<lambda>c. GetParentPath c = parent) (concat (map walk_steps paths)))"

definition discovered_children :: "SdfPath list \<Rightarrow> SdfPath \<Rightarrow> TfToken list option" where
  "discovered_children paths parent =
     (if discovered_names paths parent = [] then None
      else Some (first_seen (discovered_names paths parent)))"

text \<open>What a parent holds after more names are registered under it.\<close>

definition extend :: "TfToken list option \<Rightarrow> TfToken list \<Rightarrow> TfToken list option" where
  "extend old names =
     (if names = [] then old
      else Some (fold add1 names (case old of None \<Rightarrow> [] | Some l \<Rightarrow> l)))"

text \<open>
  The data after the walk from one indexed path, and the paths that such a walk adds to
  the set of all paths.
\<close>

definition visit :: "SdfPath \<Rightarrow> ParquetLayerData \<Rightarrow> ParquetLayerData" where
  "visit p s = fold register_child (walk_steps p) (s\<lparr> allPaths := insert p (allPaths s) \<rparr>)"

definition covered :: "SdfPath \<Rightarrow> SdfPath set" where
  "covered p = {p} \<union> (GetParentPath ` set (walk_steps p) - {AbsoluteRootPath})"

text \<open>
  The data at the start of the scan of a file into a fresh object, at the end of the scan
  with path column \<open>c\<close>, and after the hierarchy is built.
\<close>

definition scan_start :: "ParquetFile \<Rightarrow> ParquetLayerData" where
  "scan_start file =
     ParquetLayerData_init
       \<lparr> reader := Some file, propertyNames := filter (\<lambda>n. n \<noteq> ''path'') (schema file) \<rparr>"

definition scan_end :: "ParquetFile \<Rightarrow> nat \<Rightarrow> ParquetLayerData" where
  "scan_end file c = snd (index_row_groups c 0 (row_groups file) (scan_start file))"

definition built :: "ParquetFile \<Rightarrow> nat \<Rightarrow> ParquetLayerData" where
  "built file c =
     fold visit (map fst (pathIndex (scan_end file c)))
       ((scan_end file c)\<lparr> allPaths := {}, childrenMap := Map.empty \<rparr>)"

subsection \<open>Blocks and field values\<close>

text \<open>
  The chunk of a column in a row group. The six physical types that the block cache
  decodes are the supported ones.
\<close>

definition chunk_of :: "ParquetFile \<Rightarrow> nat \<Rightarrow> nat \<Rightarrow> ColumnChunk" where
  "chunk_of pf rg c = columns (row_groups pf ! rg) ! c"

fun supported :: "ColumnValues \<Rightarrow> bool" where
  "supported (Int96Values vs) = False"
| "supported (FixedLenByteArrayValues vs) = False"
| "supported vs = True"

text \<open>
  The value that a column holds at a row offset, as a value of the column's type, and the
  name of that type; neither exists for an unsupported column.
\<close>

fun typed_value_at :: "ColumnValues \<Rightarrow> nat \<Rightarrow> VtValue option" where
  "typed_value_at (FloatValues vs) i = (if i < length vs then Some (VtFloat (vs ! i)) else None)"
| "typed_value_at (DoubleValues vs) i = (if i < length vs then Some (VtDouble (vs ! i)) else None)"
| "typed_value_at (Int32Values vs) i = (if i < length vs then Some (VtInt (vs ! i)) else None)"
| "typed_value_at (Int64Values vs) i = (if i < length vs then Some (VtInt64 (vs ! i)) else None)"
| "typed_value_at (BoolValues vs) i = (if i < length vs then Some (VtBool (vs ! i)) else None)"
| "typed_value_at (ByteArrayValues vs) i = (if i < length vs then Some (VtString (vs ! i)) else None)"
| "typed_value_at vs i = None"

fun type_name_of :: "ColumnValues \<Rightarrow> TfToken option" where
  "type_name_of (FloatValues vs) = Some ''float''"
| "type_name_of (DoubleValues vs) = Some ''double''"
| "type_name_of (Int32Values vs) = Some ''int''"
| "type_name_of (Int64Values vs) = Some ''int64''"
| "type_name_of (BoolValues vs) = Some ''bool''"
| "type_name_of (ByteArrayValues vs) = Some ''string''"
| "type_name_of vs = None"

text \<open>
  The array that the cache holds for a chunk, and the value found in the cache for a
  field and row group after the block was asked for: the array of the field's column,
  or the empty value when nothing was decoded.
\<close>

fun decode_chunk :: "nat \<Rightarrow> ColumnValues \<Rightarrow> VtValue" where
  "decode_chunk n (FloatValues vs) = VtFloatArray (read_into n 0 vs)"
| "decode_chunk n (DoubleValues vs) = VtDoubleArray (read_into n 0 vs)"
| "decode_chunk n (Int32Values vs) = VtIntArray (read_into n 0 vs)"
| "decode_chunk n (Int64Values vs) = VtInt64Array (read_into n 0 vs)"
| "decode_chunk n (BoolValues vs) = VtBoolArray (read_into n False vs)"
| "decode_chunk n (ByteArrayValues vs) = VtStringArray (take n vs)"
| "decode_chunk n vs = VtEmpty"

definition expected_block :: "ParquetFile \<Rightarrow> TfToken \<Rightarrow> nat \<Rightarrow> VtValue" where
  "expected_block pf field rg =
     (case find_column 0 (schema pf) field of
        None \<Rightarrow> VtEmpty
      | Some c \<Rightarrow> decode_chunk (num_rows (row_groups pf ! rg)) (chunk_values (chunk_of pf rg c)))"

definition put_block :: "TfToken \<Rightarrow> nat \<Rightarrow> VtValue \<Rightarrow> ParquetLayerData \<Rightarrow> ParquetLayerData" where
  "put_block field rg block s =
     s\<lparr> blockCache := (blockCache s)(field := (blockCache s field)(rg \<mapsto> block)) \<rparr>"

text \<open>
  The data that can arise: what a successful read of a file hands to the layer, and
  what the queries and the mutation calls make of it. Such data is consistent with its
  file: every cache entry is the block of its field and row group, and every indexed
  location lies inside its row group. The queries leave everything but the cache and the
  read log as it is.
\<close>

inductive reachable :: "ParquetFile \<Rightarrow> ParquetLayerData \<Rightarrow> bool" for pf where
  opened: "fs name = Some pf \<Longrightarrow> Read fs name = Some (Inr (Some s)) \<Longrightarrow> reachable pf s"
| got: "reachable pf s \<Longrightarrow> Get s path field = Inr (v, s') \<Longrightarrow> reachable pf s'"
| had: "reachable pf s \<Longrightarrow> Has s path field = Inr (r, s') \<Longrightarrow> reachable pf s'"
| mutated: "reachable pf s \<Longrightarrow> reachable pf (mutate s m)"

definition consistent :: "ParquetFile \<Rightarrow> ParquetLayerData \<Rightarrow> bool" where
  "consistent pf s =
     (reader s = Some pf \<and>
      (\<forall>field rg block. blockCache s field rg = Some block \<longrightarrow> block = expected_block pf field rg) \<and>
      (\<forall>p loc. index_find s p = Some loc \<longrightarrow>
         rowGroup loc < length (row_groups pf) \<and>
         rowOffset loc < num_rows (row_groups pf ! rowGroup loc)))"

definition same_structure :: "ParquetLayerData \<Rightarrow> ParquetLayerData \<Rightarrow> bool" where
  "same_structure s s' =
     (pathIndex s' = pathIndex s \<and> propertyNames s' = propertyNames s \<and>
      allPaths s' = allPaths s \<and> childrenMap s' = childrenMap s \<and> reader s' = reader s)"

section \<open>Example files\<close>

text \<open>
  A file with two row groups and three property columns. The path column holds
  \<^verbatim>\<open>/A/C\<close> before \<^verbatim>\<open>/A/B\<close>, a relative path, an empty string, and \<^verbatim>\<open>/A/B\<close> a second
  time in the second row group. \<^verbatim>\<open>temp\<close> is a float column (the bits of 2.5, 0, 1.5 and
  of 3, 0), \<^verbatim>\<open>label\<close> a string column, \<^verbatim>\<open>stamp\<close> a 96-bit integer column, which the
  block cache does not decode.
\<close>

definition example_file :: ParquetFile where
  "example_file =
     \<lparr> schema = [''path'', ''temp'', ''label'', ''stamp''],
       row_groups =
         [\<lparr> num_rows = 3,
            columns =
              [\<lparr> chunk_values = ByteArrayValues [''/A/C'', ''relative/x'', ''/A/B''],
                 chunk_throws = False \<rparr>,
               \<lparr> chunk_values = FloatValues [0x40200000, 0, 0x3FC00000],
                 chunk_throws = False \<rparr>,
               \<lparr> chunk_values = ByteArrayValues [''c'', ''r'', ''b''], chunk_throws = False \<rparr>,
               \<lparr> chunk_values = Int96Values [1, 2, 3], chunk_throws = False \<rparr>] \<rparr>,
          \<lparr> num_rows = 2,
            columns =
              [\<lparr> chunk_values = ByteArrayValues [''/A/B'', []], chunk_throws = False \<rparr>,
               \<lparr> chunk_values = FloatValues [0x40400000, 0], chunk_throws = False \<rparr>,
               \<lparr> chunk_values = ByteArrayValues [''b2'', ''e''], chunk_throws = False \<rparr>,
               \<lparr> chunk_values = Int96Values [4, 5], chunk_throws = False \<rparr>] \<rparr>] \<rparr>"

text \<open>A file whose only row names a property, \<^verbatim>\<open>/A.x\<close>, and that has no other column.\<close>

definition property_row_file :: ParquetFile where
  "property_row_file =
     \<lparr> schema = [''path''],
       row_groups =
         [\<lparr> num_rows = 1,
            columns = [\<lparr> chunk_values = ByteArrayValues [''/A.x''], chunk_throws = False \<rparr>] \<rparr>] \<rparr>"

text \<open>A file without a path column, and one whose path column cannot be read.\<close>

definition no_path_file :: ParquetFile where
  "no_path_file =
     \<lparr> schema = [''temp''],
       row_groups =
         [\<lparr> num_rows = 1,
            columns = [\<lparr> chunk_values = FloatValues [0], chunk_throws = False \<rparr>] \<rparr>] \<rparr>"

definition corrupt_file :: ParquetFile where
  "corrupt_file =
     \<lparr> schema = [''path''],
       row_groups =
         [\<lparr> num_rows = 1,
            columns = [\<lparr> chunk_values = ByteArrayValues [''/A''], chunk_throws = True \<rparr>] \<rparr>] \<rparr>"

definition example_fs :: FileSystem where
  "example_fs =
     [''scene.parquet'' \<mapsto> example_file, ''props.parquet'' \<mapsto> property_row_file,
      ''nopath.parquet'' \<mapsto> no_path_file, ''corrupt.parquet'' \<mapsto> corrupt_file]"

text \<open>The data that the layer holds after reading a file of the example file system.\<close>

definition opened :: "string \<Rightarrow> ParquetLayerData" where
  "opened name =
     (case Read example_fs name of
        Some (Inr (Some s)) \<Rightarrow> s
      | _ \<Rightarrow> ParquetLayerData_init)"

section \<open>The path index is an ordered map\<close>

lemma map_of_index_assign: "map_of (index_assign k v m) = (map_of m)(k \<mapsto> v)"
  by (induction m) (auto simp: fun_upd_twist)

lemma path_key_inj: "path_key p = path_key q \<Longrightarrow> p = q"
  by (cases p; cases q) (auto split: if_splits)

lemma path_less_trans: "path_less p q \<Longrightarrow> path_less q r \<Longrightarrow> path_less p r"
  unfolding path_less_def by (rule less_trans)

lemma path_less_total: "p \<noteq> q \<Longrightarrow> \<not> path_less p q \<Longrightarrow> path_less q p"
  unfolding path_less_def using path_key_inj [of p q] by (meson linorder_neqE)

lemma keys_index_assign: "fst ` set (index_assign k v m) = insert k (fst ` set m)"
proof -
  have "fst ` set (index_assign k v m) = dom (map_of (index_assign k v m))"
    by (simp add: dom_map_of_conv_image_fst)
  also have "\<dots> = insert k (dom (map_of m))"
    by (simp add: map_of_index_assign)
  finally show ?thesis by (simp add: dom_map_of_conv_image_fst)
qed

lemma sorted_index_assign:
  "sorted_wrt path_less (map fst m) \<Longrightarrow> sorted_wrt path_less (map fst (index_assign k v m))"
proof (induction m)
  case Nil
  show ?case by simp
next
  case (Cons e m)
  obtain k' v' where e: "e = (k', v')" by (cases e)
  show ?case
  proof (cases "path_less k k'")
    case True
    have "\<forall>x\<in>set m. path_less k (fst x)"
      using Cons.prems True e by (auto intro: path_less_trans)
    with True Cons.prems e show ?thesis by auto
  next
    case False
    show ?thesis
    proof (cases "k = k'")
      case True
      with False Cons.prems e show ?thesis by auto
    next
      case ne: False
      have lt: "path_less k' k" using False ne path_less_total by blast
      have "\<forall>x\<in>fst ` set (index_assign k v m). path_less k' x"
        unfolding keys_index_assign using lt Cons.prems e by auto
      moreover have "sorted_wrt path_less (map fst (index_assign k v m))"
        using Cons e by simp
      ultimately show ?thesis using False ne e by auto
    qed
  qed
qed

section \<open>The scan of the path column\<close>

lemma last_location_append:
  "last_location p (rows @ rows') =
     (case last_location p rows' of Some l \<Rightarrow> Some l | None \<Rightarrow> last_location p rows)"
  by (induction rows) (auto split: option.splits)

lemma located_Cons:
  "located rg i (v # vs) = (v, \<lparr> rowGroup = rg, rowOffset = i \<rparr>) # located rg (Suc i) vs"
  by (simp add: located_def)

lemma located_Nil: "located rg i [] = []"
  by (simp add: located_def)

lemma map_of_index_values:
  "map_of (index_values rg i vs idx) p =
     (case last_location p (located rg i vs) of Some l \<Rightarrow> Some l | None \<Rightarrow> map_of idx p)"
proof (induction vs arbitrary: i idx)
  case Nil
  show ?case by (simp add: located_Nil)
next
  case (Cons v vs)
  show ?case
    by (auto simp add: Cons located_Cons Let_def map_of_index_assign split: option.splits)
qed

lemma sorted_index_values:
  "sorted_wrt path_less (map fst idx) \<Longrightarrow> sorted_wrt path_less (map fst (index_values rg i vs idx))"
  by (induction vs arbitrary: i idx) (auto simp add: Let_def sorted_index_assign)

lemma absolute_index_values:
  "\<forall>k\<in>fst ` set idx. IsAbsolutePath k \<Longrightarrow> \<forall>k\<in>fst ` set (index_values rg i vs idx). IsAbsolutePath k"
proof (induction vs arbitrary: i idx)
  case Nil
  then show ?case by simp
next
  case (Cons v vs)
  show ?case
  proof (cases "IsAbsolutePath (SdfPath_of_string v)")
    case True
    have "\<forall>k\<in>fst ` set (index_assign (SdfPath_of_string v) \<lparr>rowGroup = rg, rowOffset = i\<rparr> idx). IsAbsolutePath k"
      unfolding keys_index_assign using True Cons.prems by simp
    from Cons.IH [OF this] True show ?thesis by (simp add: Let_def)
  next
    case False
    with Cons.IH [OF Cons.prems] show ?thesis by (simp add: Let_def)
  qed
qed

subsection \<open>The schema\<close>

lemma scan_schema_props:
  "snd (scan_schema i names (pc, props)) = props @ filter (\<lambda>n. n \<noteq> ''path'') names"
  by (induction names arbitrary: i pc props) auto

lemma scan_schema_None:
  "fst (scan_schema i names (pc, props)) = None \<longleftrightarrow> pc = None \<and> ''path'' \<notin> set names"
  by (induction names arbitrary: i pc props) auto

lemma scan_schema_Some:
  "fst (scan_schema i names (pc, props)) = Some c \<Longrightarrow>
     (pc = Some c \<and> ''path'' \<notin> set names) \<or>
     (i \<le> c \<and> c - i < length names \<and> names ! (c - i) = ''path'' \<and>
      (\<forall>j < length names. c - i < j \<longrightarrow> names ! j \<noteq> ''path''))"
proof (induction names arbitrary: i pc props)
  case Nil
  then show ?case by simp
next
  case (Cons n names)
  show ?case
  proof (cases "n = ''path''")
    case True
    with Cons.prems have "fst (scan_schema (Suc i) names (Some i, props)) = Some c" by simp
    from Cons.IH [OF this] show ?thesis
    proof
      assume "Some i = Some c \<and> ''path'' \<notin> set names"
      then have ci: "c = i" and np: "''path'' \<notin> set names" by auto
      have "\<forall>j < length (n # names). c - i < j \<longrightarrow> (n # names) ! j \<noteq> ''path''"
      proof (intro allI impI)
        fix j assume "j < length (n # names)" "c - i < j"
        then obtain j' where "j = Suc j'" "j' < length names" by (cases j) auto
        with np show "(n # names) ! j \<noteq> ''path''" by (metis nth_Cons_Suc nth_mem)
      qed
      with ci True show ?thesis by simp
    next
      assume a: "Suc i \<le> c \<and> c - Suc i < length names \<and> names ! (c - Suc i) = ''path'' \<and>
        (\<forall>j < length names. c - Suc i < j \<longrightarrow> names ! j \<noteq> ''path'')"
      then obtain d where d: "c - i = Suc d" "c - Suc i = d" by (metis Suc_diff_Suc Suc_le_lessD diff_Suc_Suc)
      have "\<forall>j < length (n # names). c - i < j \<longrightarrow> (n # names) ! j \<noteq> ''path''"
      proof (intro allI impI)
        fix j assume "j < length (n # names)" "c - i < j"
        then obtain j' where "j = Suc j'" "j' < length names" "d < j'" using d by (cases j) auto
        with a d show "(n # names) ! j \<noteq> ''path''" by simp
      qed
      with a d show ?thesis by auto
    qed
  next
    case False
    with Cons.prems have "fst (scan_schema (Suc i) names (pc, props @ [n])) = Some c" by simp
    from Cons.IH [OF this] show ?thesis
    proof
      assume "pc = Some c \<and> ''path'' \<notin> set names"
      with False show ?thesis by auto
    next
      assume a: "Suc i \<le> c \<and> c - Suc i < length names \<and> names ! (c - Suc i) = ''path'' \<and>
        (\<forall>j < length names. c - Suc i < j \<longrightarrow> names ! j \<noteq> ''path'')"
      then obtain d where d: "c - i = Suc d" "c - Suc i = d" by (metis Suc_diff_Suc Suc_le_lessD diff_Suc_Suc)
      have "\<forall>j < length (n # names). c - i < j \<longrightarrow> (n # names) ! j \<noteq> ''path''"
      proof (intro allI impI)
        fix j assume "j < length (n # names)" "c - i < j"
        then obtain j' where "j = Suc j'" "j' < length names" "d < j'" using d by (cases j) auto
        with a d show "(n # names) ! j \<noteq> ''path''" by simp
      qed
      with a d show ?thesis by auto
    qed
  qed
qed

lemma is_path_column_unique: "is_path_column sch c \<Longrightarrow> is_path_column sch c' \<Longrightarrow> c = c'"
  unfolding is_path_column_def by (metis linorder_neqE_nat)

lemma scan_schema_path_column:
  "fst (scan_schema 0 sch (None, [])) = Some c \<longleftrightarrow> is_path_column sch c"
proof
  assume "fst (scan_schema 0 sch (None, [])) = Some c"
  from scan_schema_Some [OF this] show "is_path_column sch c"
    by (simp add: is_path_column_def)
next
  assume c: "is_path_column sch c"
  then have "''path'' \<in> set sch" unfolding is_path_column_def by (metis nth_mem)
  then have "fst (scan_schema 0 sch (None, [])) \<noteq> None" by (simp add: scan_schema_None)
  then obtain c' where c': "fst (scan_schema 0 sch (None, [])) = Some c'" by auto
  from scan_schema_Some [OF this] have "is_path_column sch c'"
    by (simp add: is_path_column_def)
  with c c' show "fst (scan_schema 0 sch (None, [])) = Some c"
    using is_path_column_unique by blast
qed

lemma find_column_Some:
  "find_column i names field = Some c \<Longrightarrow>
     i \<le> c \<and> c - i < length names \<and> names ! (c - i) = field \<and> (\<forall>j < c - i. names ! j \<noteq> field)"
proof (induction names arbitrary: i)
  case Nil
  then show ?case by simp
next
  case (Cons n names)
  show ?case
  proof (cases "n = field")
    case True
    with Cons.prems show ?thesis by simp
  next
    case False
    with Cons.prems have "find_column (Suc i) names field = Some c" by simp
    from Cons.IH [OF this] have a: "Suc i \<le> c" "c - Suc i < length names"
      "names ! (c - Suc i) = field" "\<forall>j < c - Suc i. names ! j \<noteq> field" by auto
    then obtain d where d: "c - i = Suc d" "c - Suc i = d" by (metis Suc_diff_Suc Suc_le_lessD diff_Suc_Suc)
    have "\<forall>j < c - i. (n # names) ! j \<noteq> field"
    proof (intro allI impI)
      fix j assume "j < c - i"
      then show "(n # names) ! j \<noteq> field" using a d False by (cases j) auto
    qed
    with a d show ?thesis by auto
  qed
qed

lemma find_column_None: "find_column i names field = None \<longleftrightarrow> field \<notin> set names"
  by (induction names arbitrary: i) auto

lemma is_column_of_unique: "is_column_of sch f c \<Longrightarrow> is_column_of sch f c' \<Longrightarrow> c = c'"
  unfolding is_column_of_def by (metis linorder_neqE_nat)

lemma find_column_is_column_of:
  "find_column 0 sch field = Some c \<longleftrightarrow> is_column_of sch field c"
proof
  assume "find_column 0 sch field = Some c"
  from find_column_Some [OF this] show "is_column_of sch field c"
    by (simp add: is_column_of_def)
next
  assume c: "is_column_of sch field c"
  then have "field \<in> set sch" unfolding is_column_of_def by (metis nth_mem)
  then obtain c' where c': "find_column 0 sch field = Some c'"
    using find_column_None [of 0 sch field] by auto
  from find_column_Some [OF this] have "is_column_of sch field c'"
    by (simp add: is_column_of_def)
  with c c' show "find_column 0 sch field = Some c"
    using is_column_of_unique by blast
qed

subsection \<open>The row groups\<close>

lemma scan_throws_Nil: "\<not> scan_throws c []"
  by (simp add: scan_throws_def)

lemma scan_throws_Cons:
  "scan_throws c (g # gs) \<longleftrightarrow>
     path_chunk_throws c g \<or> (\<not> path_chunk_miscast c g \<and> scan_throws c gs)"
proof
  assume "scan_throws c (g # gs)"
  then obtain k where k: "k < length (g # gs)" "path_chunk_throws c ((g # gs) ! k)"
    "\<forall>j < k. \<not> path_chunk_miscast c ((g # gs) ! j)" unfolding scan_throws_def by blast
  show "path_chunk_throws c g \<or> (\<not> path_chunk_miscast c g \<and> scan_throws c gs)"
  proof (cases k)
    case 0
    with k show ?thesis by simp
  next
    case (Suc k')
    have "\<not> path_chunk_miscast c g" using k(3) Suc by (metis nth_Cons_0 zero_less_Suc)
    moreover have "\<forall>j < k'. \<not> path_chunk_miscast c (gs ! j)"
      using k(3) Suc by (metis Suc_less_eq nth_Cons_Suc)
    then have "scan_throws c gs" unfolding scan_throws_def using k Suc by auto
    ultimately show ?thesis by simp
  qed
next
  assume a: "path_chunk_throws c g \<or> (\<not> path_chunk_miscast c g \<and> scan_throws c gs)"
  show "scan_throws c (g # gs)"
  proof (cases "path_chunk_throws c g")
    case True
    then have "0 < length (g # gs) \<and> path_chunk_throws c ((g # gs) ! 0) \<and>
      (\<forall>j < 0. \<not> path_chunk_miscast c ((g # gs) ! j))" by simp
    then show ?thesis unfolding scan_throws_def by blast
  next
    case False
    with a have nm: "\<not> path_chunk_miscast c g" and st: "scan_throws c gs" by auto
    from st obtain k where k: "k < length gs" "path_chunk_throws c (gs ! k)"
      "\<forall>j < k. \<not> path_chunk_miscast c (gs ! j)" unfolding scan_throws_def by blast
    have "\<forall>j < Suc k. \<not> path_chunk_miscast c ((g # gs) ! j)"
    proof (intro allI impI)
      fix j assume "j < Suc k"
      then show "\<not> path_chunk_miscast c ((g # gs) ! j)" using nm k(3) by (cases j) auto
    qed
    then have "Suc k < length (g # gs) \<and> path_chunk_throws c ((g # gs) ! Suc k) \<and>
      (\<forall>j < Suc k. \<not> path_chunk_miscast c ((g # gs) ! j))" using k by simp
    then show ?thesis unfolding scan_throws_def by blast
  qed
qed

lemma ReadBatch_ByteArray_cases:
  "ReadBatch_ByteArray n ch =
     (if chunk_throws ch then Inl ParquetException
      else if is_byte_array (chunk_values ch)
        then Inr (case chunk_values ch of ByteArrayValues vs \<Rightarrow> take n vs | _ \<Rightarrow> [])
        else Inl UndefinedBehaviour)"
  by (cases "chunk_values ch") (simp_all add: ReadBatch_ByteArray_def)

lemma index_row_groups_throws:
  "fst (index_row_groups c rg gs s) = Some ParquetException \<longleftrightarrow> scan_throws c gs"
proof (induction gs arbitrary: rg s)
  case Nil
  show ?case by (simp add: scan_throws_Nil)
next
  case (Cons g gs)
  show ?case
    by (simp add: scan_throws_Cons Cons ReadBatch_ByteArray_cases path_chunk_throws_def
        path_chunk_miscast_def not_le)
qed

lemma path_chunk_ok:
  "\<not> path_chunk_throws c g \<Longrightarrow> \<not> path_chunk_miscast c g \<Longrightarrow>
     c < length (columns g) \<and> ReadBatch_ByteArray (num_rows g) (columns g ! c) = Inr (path_values c g)"
  by (cases "chunk_values (columns g ! c)")
    (simp_all add: path_chunk_throws_def path_chunk_miscast_def ReadBatch_ByteArray_def path_values_def)

lemma index_row_groups_None: "fst (index_row_groups c rg gs s) = None \<longleftrightarrow> scan_completes c gs"
proof (induction gs arbitrary: rg s)
  case Nil
  show ?case by (simp add: scan_completes_def)
next
  case (Cons g gs)
  have sc: "scan_completes c (g # gs) \<longleftrightarrow>
      \<not> path_chunk_throws c g \<and> \<not> path_chunk_miscast c g \<and> scan_completes c gs"
    by (auto simp add: scan_completes_def)
  show ?case
    unfolding sc
    by (simp add: Cons ReadBatch_ByteArray_cases path_chunk_throws_def path_chunk_miscast_def not_le)
qed

lemma scanned_rows_from_Nil: "scanned_rows_from c rg [] = []"
  by (simp add: scanned_rows_from_def)

lemma scanned_rows_from_Cons:
  "scanned_rows_from c rg (g # gs) = located rg 0 (path_values c g) @ scanned_rows_from c (Suc rg) gs"
  by (simp add: scanned_rows_from_def)

lemma index_row_groups_frame:
  "snd (index_row_groups c rg gs s) =
     s\<lparr> pathIndex := pathIndex (snd (index_row_groups c rg gs s)),
        decodes := decodes (snd (index_row_groups c rg gs s)) \<rparr>"
proof (induction gs arbitrary: rg s)
  case Nil
  show ?case by simp
next
  case (Cons g gs)
  show ?case
  proof (cases "length (columns g) \<le> c")
    case True
    then show ?thesis by simp
  next
    case False
    show ?thesis
    proof (cases "ReadBatch_ByteArray (num_rows g) (columns g ! c)")
      case (Inl e)
      with False show ?thesis by simp
    next
      case (Inr vs)
      let ?s1 = "s\<lparr> pathIndex := index_values rg 0 vs (pathIndex s), decodes := decodes s @ [(rg, c)] \<rparr>"
      have "snd (index_row_groups c (rg + 1) gs ?s1) =
          ?s1\<lparr> pathIndex := pathIndex (snd (index_row_groups c (rg + 1) gs ?s1)),
               decodes := decodes (snd (index_row_groups c (rg + 1) gs ?s1)) \<rparr>"
        by (rule Cons.IH)
      then show ?thesis using False Inr by simp
    qed
  qed
qed

lemma index_row_groups_map_of:
  "scan_completes c gs \<Longrightarrow>
     map_of (pathIndex (snd (index_row_groups c rg gs s))) p =
       (case last_location p (scanned_rows_from c rg gs) of
          Some l \<Rightarrow> Some l
        | None \<Rightarrow> map_of (pathIndex s) p)"
proof (induction gs arbitrary: rg s)
  case Nil
  show ?case by (simp add: scanned_rows_from_Nil)
next
  case (Cons g gs)
  from Cons.prems have ok: "\<not> path_chunk_throws c g" "\<not> path_chunk_miscast c g"
    and rest: "scan_completes c gs" by (auto simp add: scan_completes_def)
  note rd = path_chunk_ok [OF ok]
  show ?case
    using rd
    by (simp add: Cons.IH [OF rest] scanned_rows_from_Cons last_location_append
        map_of_index_values split: option.splits)
qed

lemma index_row_groups_sorted:
  "sorted_wrt path_less (map fst (pathIndex s)) \<Longrightarrow>
     sorted_wrt path_less (map fst (pathIndex (snd (index_row_groups c rg gs s))))"
proof (induction gs arbitrary: rg s)
  case Nil
  then show ?case by simp
next
  case (Cons g gs)
  show ?case
  proof (cases "length (columns g) \<le> c")
    case True
    with Cons.prems show ?thesis by simp
  next
    case False
    show ?thesis
    proof (cases "ReadBatch_ByteArray (num_rows g) (columns g ! c)")
      case (Inl e)
      with False Cons.prems show ?thesis by simp
    next
      case (Inr vs)
      let ?s1 = "s\<lparr> pathIndex := index_values rg 0 vs (pathIndex s), decodes := decodes s @ [(rg, c)] \<rparr>"
      have "sorted_wrt path_less (map fst (pathIndex ?s1))"
        using Cons.prems by (simp add: sorted_index_values)
      from Cons.IH [OF this] show ?thesis using False Inr by simp
    qed
  qed
qed

lemma index_row_groups_absolute:
  "\<forall>k\<in>fst ` set (pathIndex s). IsAbsolutePath k \<Longrightarrow>
     \<forall>k\<in>fst ` set (pathIndex (snd (index_row_groups c rg gs s))). IsAbsolutePath k"
proof (induction gs arbitrary: rg s)
  case Nil
  then show ?case by simp
next
  case (Cons g gs)
  show ?case
  proof (cases "length (columns g) \<le> c")
    case True
    with Cons.prems show ?thesis by simp
  next
    case False
    show ?thesis
    proof (cases "ReadBatch_ByteArray (num_rows g) (columns g ! c)")
      case (Inl e)
      with False Cons.prems show ?thesis by simp
    next
      case (Inr vs)
      let ?s1 = "s\<lparr> pathIndex := index_values rg 0 vs (pathIndex s), decodes := decodes s @ [(rg, c)] \<rparr>"
      have "\<forall>k\<in>fst ` set (pathIndex ?s1). IsAbsolutePath k"
        using absolute_index_values [OF Cons.prems] by simp
      from Cons.IH [OF this] show ?thesis using False Inr by simp
    qed
  qed
qed

section \<open>The walk to the root ends on an absolute path\<close>

lemma absolute_depth_0: "IsAbsolutePath p \<Longrightarrow> path_depth p = 0 \<Longrightarrow> p = AbsoluteRootPath"
  by (cases p) (simp_all add: AbsoluteRootPath_def)

lemma absolute_parent:
  "IsAbsolutePath p \<Longrightarrow> p \<noteq> AbsoluteRootPath \<Longrightarrow>
     IsAbsolutePath (GetParentPath p) \<and> Suc (path_depth (GetParentPath p)) = path_depth p"
proof (cases p)
  case EmptyPath
  assume "IsAbsolutePath p" with EmptyPath show ?thesis by simp
next
  case (PrimPath a es)
  assume "IsAbsolutePath p" "p \<noteq> AbsoluteRootPath"
  with PrimPath obtain e es' where "es = e # es'" "a" by (cases es) (auto simp add: AbsoluteRootPath_def)
  with PrimPath show ?thesis by simp
next
  case (PropertyPath a es n)
  assume "IsAbsolutePath p"
  with PropertyPath show ?thesis by simp
qed

lemma walk_up_steps:
  "IsAbsolutePath p \<Longrightarrow> path_depth p \<le> n \<Longrightarrow> walk_up p s = Some (fold register_child (steps n p) s)"
proof (induction n arbitrary: p s)
  case 0
  then have "p = AbsoluteRootPath" using absolute_depth_0 by simp
  then show ?case by (simp add: walk_up.simps)
next
  case (Suc n)
  show ?case
  proof (cases "p = AbsoluteRootPath")
    case True
    then show ?thesis by (simp add: walk_up.simps)
  next
    case False
    from absolute_parent [OF Suc.prems(1) False] Suc.prems(2)
    have "IsAbsolutePath (GetParentPath p)" "path_depth (GetParentPath p) \<le> n" by auto
    from Suc.IH [OF this]
    have "walk_up (GetParentPath p) (register_child p s) =
        Some (fold register_child (steps n (GetParentPath p)) (register_child p s))" .
    with False show ?thesis by (subst walk_up.simps) simp
  qed
qed

lemma walk_up_absolute:
  "IsAbsolutePath p \<Longrightarrow> walk_up p s = Some (fold register_child (walk_steps p) s)"
  unfolding walk_steps_def by (rule walk_up_steps) simp_all

lemma build_loop_fold:
  "\<forall>k\<in>fst ` set idx. IsAbsolutePath k \<Longrightarrow> build_loop idx s = Some (fold visit (map fst idx) s)"
proof (induction idx arbitrary: s)
  case Nil
  show ?case by simp
next
  case (Cons e idx)
  obtain p loc where e: "e = (p, loc)" by (cases e)
  with Cons.prems have ab: "IsAbsolutePath p" and rest: "\<forall>k\<in>fst ` set idx. IsAbsolutePath k" by auto
  show ?case
    unfolding e by (simp add: walk_up_absolute [OF ab] Cons.IH [OF rest] visit_def)
qed

section \<open>What the hierarchy builder changes\<close>

lemma register_child_frame:
  "pathIndex (register_child c s) = pathIndex s"
  "propertyNames (register_child c s) = propertyNames s"
  "blockCache (register_child c s) = blockCache s"
  "reader (register_child c s) = reader s"
  "decodes (register_child c s) = decodes s"
  by (simp_all add: register_child_def Let_def)

lemma register_child_allPaths:
  "allPaths (register_child c s) =
     (if GetParentPath c \<noteq> AbsoluteRootPath then insert (GetParentPath c) (allPaths s)
      else allPaths s)"
  by (simp add: register_child_def Let_def)

lemma register_child_childrenMap:
  "childrenMap (register_child c s) q =
     (if q = GetParentPath c
      then Some (add1 (GetNameToken c) (case childrenMap s q of None \<Rightarrow> [] | Some l \<Rightarrow> l))
      else childrenMap s q)"
  by (simp add: register_child_def Let_def add1_def)

lemma fold_register_child_frame:
  "pathIndex (fold register_child cs s) = pathIndex s"
  "propertyNames (fold register_child cs s) = propertyNames s"
  "blockCache (fold register_child cs s) = blockCache s"
  "reader (fold register_child cs s) = reader s"
  "decodes (fold register_child cs s) = decodes s"
  by (induction cs arbitrary: s) (simp_all add: register_child_frame)

lemma fold_register_child_allPaths:
  "allPaths (fold register_child cs s) =
     allPaths s \<union> (GetParentPath ` set cs - {AbsoluteRootPath})"
  by (induction cs arbitrary: s) (auto simp add: register_child_allPaths)

lemma visit_frame:
  "pathIndex (visit p s) = pathIndex s"
  "propertyNames (visit p s) = propertyNames s"
  "blockCache (visit p s) = blockCache s"
  "reader (visit p s) = reader s"
  "decodes (visit p s) = decodes s"
  by (simp_all add: visit_def fold_register_child_frame)

lemma fold_visit_frame:
  "pathIndex (fold visit ps s) = pathIndex s"
  "propertyNames (fold visit ps s) = propertyNames s"
  "blockCache (fold visit ps s) = blockCache s"
  "reader (fold visit ps s) = reader s"
  "decodes (fold visit ps s) = decodes s"
  by (induction ps arbitrary: s) (simp_all add: visit_frame)

lemma visit_allPaths:
  "allPaths (visit p s) =
     allPaths s \<union> ({p} \<union> (GetParentPath ` set (walk_steps p) - {AbsoluteRootPath}))"
  by (auto simp add: visit_def fold_register_child_allPaths)

lemma fold_visit_allPaths:
  "allPaths (fold visit ps s) =
     allPaths s \<union> (\<Union>p\<in>set ps. {p} \<union> (GetParentPath ` set (walk_steps p) - {AbsoluteRootPath}))"
  by (induction ps arbitrary: s) (auto simp add: visit_allPaths)

section \<open>The outcomes of opening\<close>

lemma Open_cases:
  assumes "fs name = Some file"
  shows "Open fs name s0 =
     (case fst (scan_schema 0 (schema file) (None, [])) of
        None \<Rightarrow>
          Some (Inr (False, s0\<lparr> reader := Some file,
                                propertyNames := snd (scan_schema 0 (schema file) (None, [])) \<rparr>))
      | Some c \<Rightarrow>
          (let r = index_row_groups c 0 (row_groups file)
                     (s0\<lparr> reader := Some file,
                          propertyNames := snd (scan_schema 0 (schema file) (None, [])) \<rparr>)
           in case fst r of
                Some ParquetException \<Rightarrow> Some (Inr (False, snd r))
              | Some UndefinedBehaviour \<Rightarrow> Some (Inl UndefinedBehaviour)
              | None \<Rightarrow>
                  (case BuildPathHierarchy (snd r) of
                     None \<Rightarrow> None
                   | Some s'' \<Rightarrow> Some (Inr (True, s'')))))"
proof -
  obtain pc props where sc: "scan_schema 0 (schema file) (None, []) = (pc, props)"
    by (cases "scan_schema 0 (schema file) (None, [])")
  show ?thesis
  proof (cases pc)
    case None
    with sc assms show ?thesis by (simp add: Open_def)
  next
    case (Some c)
    obtain e s' where r:
      "index_row_groups c 0 (row_groups file) (s0\<lparr> reader := Some file, propertyNames := props \<rparr>)
         = (e, s')"
      by (cases "index_row_groups c 0 (row_groups file)
                   (s0\<lparr> reader := Some file, propertyNames := props \<rparr>)")
    show ?thesis
    proof (cases e)
      case None
      with assms sc Some r show ?thesis by (simp add: Open_def split: option.splits)
    next
      case (Some err)
      with assms sc \<open>pc = Some c\<close> r show ?thesis by (cases err) (simp_all add: Open_def)
    qed
  qed
qed

lemma scan_start_eq:
  "ParquetLayerData_init
     \<lparr> reader := Some file, propertyNames := snd (scan_schema 0 (schema file) (None, [])) \<rparr>
   = scan_start file"
  by (simp add: scan_start_def scan_schema_props)

lemma scan_end_facts:
  "reader (scan_end file c) = Some file"
  "propertyNames (scan_end file c) = filter (\<lambda>n. n \<noteq> ''path'') (schema file)"
  "blockCache (scan_end file c) = (\<lambda>field. Map.empty)"
  "sorted_wrt path_less (map fst (pathIndex (scan_end file c)))"
  "\<forall>k\<in>fst ` set (pathIndex (scan_end file c)). IsAbsolutePath k"
proof -
  let ?r = "index_row_groups c 0 (row_groups file) (scan_start file)"
  have fr: "snd ?r = (scan_start file)\<lparr> pathIndex := pathIndex (snd ?r), decodes := decodes (snd ?r) \<rparr>"
    by (rule index_row_groups_frame)
  have "reader (snd ?r) = reader (scan_start file)" by (subst fr) simp
  then show "reader (scan_end file c) = Some file"
    by (simp add: scan_end_def scan_start_def ParquetLayerData_init_def)
  have "propertyNames (snd ?r) = propertyNames (scan_start file)" by (subst fr) simp
  then show "propertyNames (scan_end file c) = filter (\<lambda>n. n \<noteq> ''path'') (schema file)"
    by (simp add: scan_end_def scan_start_def ParquetLayerData_init_def)
  have "blockCache (snd ?r) = blockCache (scan_start file)" by (subst fr) simp
  then show "blockCache (scan_end file c) = (\<lambda>field. Map.empty)"
    by (simp add: scan_end_def scan_start_def ParquetLayerData_init_def)
  have "sorted_wrt path_less (map fst (pathIndex (scan_start file)))"
    by (simp add: scan_start_def ParquetLayerData_init_def)
  then show "sorted_wrt path_less (map fst (pathIndex (scan_end file c)))"
    unfolding scan_end_def by (rule index_row_groups_sorted)
  have "\<forall>k\<in>fst ` set (pathIndex (scan_start file)). IsAbsolutePath k"
    by (simp add: scan_start_def ParquetLayerData_init_def)
  then show "\<forall>k\<in>fst ` set (pathIndex (scan_end file c)). IsAbsolutePath k"
    unfolding scan_end_def by (rule index_row_groups_absolute)
qed

lemma scan_end_map_of:
  "scan_completes c (row_groups file) \<Longrightarrow>
     map_of (pathIndex (scan_end file c)) p = last_location p (scanned_rows_from c 0 (row_groups file))"
  unfolding scan_end_def
  by (simp add: index_row_groups_map_of scan_start_def ParquetLayerData_init_def split: option.splits)

lemma BuildPathHierarchy_scan_end:
  "BuildPathHierarchy (scan_end file c) = Some (built file c)"
  unfolding BuildPathHierarchy_def built_def
  by (rule build_loop_fold) (rule scan_end_facts)

lemma Read_cases:
  assumes "fs name = Some pf"
  shows "Read fs name =
     (case fst (scan_schema 0 (schema pf) (None, [])) of
        None \<Rightarrow> Some (Inr None)
      | Some c \<Rightarrow>
          (case fst (index_row_groups c 0 (row_groups pf) (scan_start pf)) of
             Some ParquetException \<Rightarrow> Some (Inr None)
           | Some UndefinedBehaviour \<Rightarrow> Some (Inl UndefinedBehaviour)
           | None \<Rightarrow> Some (Inr (Some (built pf c)))))"
  unfolding Read_def Open_cases [of fs name pf ParquetLayerData_init, OF assms] scan_start_eq
  by (simp add: Let_def BuildPathHierarchy_scan_end [unfolded scan_end_def]
      split: option.splits error.splits)

lemma Read_missing: "fs name = None \<Longrightarrow> Read fs name = Some (Inr None)"
  by (simp add: Read_def Open_def)

lemma Read_returns: "Read fs name \<noteq> None"
proof (cases "fs name")
  case None
  then show ?thesis by (simp add: Read_missing)
next
  case (Some pf)
  show ?thesis
    unfolding Read_cases [of fs name pf, OF Some] by (simp split: option.splits error.splits)
qed

lemma Read_Some:
  assumes "Read fs name = Some (Inr (Some s))"
  obtains pf c where "fs name = Some pf" "is_path_column (schema pf) c"
    "scan_completes c (row_groups pf)" "s = built pf c"
proof (cases "fs name")
  case None
  with assms show ?thesis by (simp add: Read_missing)
next
  case (Some pf)
  from assms obtain c where c: "fst (scan_schema 0 (schema pf) (None, [])) = Some c"
    and r: "fst (index_row_groups c 0 (row_groups pf) (scan_start pf)) = None"
    and s: "s = built pf c"
    unfolding Read_cases [of fs name pf, OF Some] by (auto split: option.splits error.splits)
  from c have "is_path_column (schema pf) c" by (simp add: scan_schema_path_column)
  moreover from r have "scan_completes c (row_groups pf)" by (simp add: index_row_groups_None)
  ultimately show ?thesis using that Some s by blast
qed

lemma Read_succeeds:
  assumes "fs name = Some pf" "is_path_column (schema pf) c" "scan_completes c (row_groups pf)"
  shows "Read fs name = Some (Inr (Some (built pf c)))"
proof -
  from assms(2) have c: "fst (scan_schema 0 (schema pf) (None, [])) = Some c"
    by (simp add: scan_schema_path_column)
  from assms(3) have r: "fst (index_row_groups c 0 (row_groups pf) (scan_start pf)) = None"
    by (simp add: index_row_groups_None)
  show ?thesis unfolding Read_cases [of fs name pf, OF assms(1)] by (simp add: c r)
qed

lemma built_facts:
  "reader (built pf c) = Some pf"
  "propertyNames (built pf c) = filter (\<lambda>n. n \<noteq> ''path'') (schema pf)"
  "blockCache (built pf c) = (\<lambda>field. Map.empty)"
  "pathIndex (built pf c) = pathIndex (scan_end pf c)"
  by (simp_all add: built_def fold_visit_frame scan_end_facts)

lemma opened_scene:
  "Read example_fs ''scene.parquet'' = Some (Inr (Some (opened ''scene.parquet'')))"
proof -
  have "case Read example_fs ''scene.parquet'' of Some (Inr (Some s)) \<Rightarrow> True | _ \<Rightarrow> False"
    by code_simp
  then show ?thesis
    by (simp add: opened_def split: option.splits sum.splits)
qed

text \<open>
  C8: when the reader can open the file, \<^verbatim>\<open>Open\<close> returns false in exactly two cases:
  the schema has no column named \<^verbatim>\<open>path\<close>, or a read of the path column throws during
  the scan that builds the index. In these cases and in no other \<^verbatim>\<open>Read\<close> hands no
  data to the layer. The exception never leaves \<^verbatim>\<open>Open\<close>.
\<close>

theorem Open_fails_exactly:
  assumes "fs name = Some pf"
  shows "((\<exists>s'. Open fs name s = Some (Inr (False, s'))) \<longleftrightarrow>
            ''path'' \<notin> set (schema pf) \<or>
            (\<exists>c. is_path_column (schema pf) c \<and> scan_throws c (row_groups pf))) \<and>
         (Read fs name = Some (Inr None) \<longleftrightarrow>
            ''path'' \<notin> set (schema pf) \<or>
            (\<exists>c. is_path_column (schema pf) c \<and> scan_throws c (row_groups pf))) \<and>
         Open fs name s \<noteq> Some (Inl ParquetException)"
proof (cases "fst (scan_schema 0 (schema pf) (None, []))")
  case None
  then have np: "''path'' \<notin> set (schema pf)" by (simp add: scan_schema_None)
  show ?thesis
    unfolding Open_cases [of fs name pf s, OF assms] Read_cases [of fs name pf, OF assms]
    using None np by simp
next
  case (Some c)
  then have pc: "is_path_column (schema pf) c" by (simp add: scan_schema_path_column)
  then have inp: "''path'' \<in> set (schema pf)" unfolding is_path_column_def by (metis nth_mem)
  have ex: "(\<exists>c'. is_path_column (schema pf) c' \<and> scan_throws c' (row_groups pf)) \<longleftrightarrow>
      scan_throws c (row_groups pf)"
    using pc is_path_column_unique by blast
  let ?s1 = "s\<lparr> reader := Some pf, propertyNames := snd (scan_schema 0 (schema pf) (None, [])) \<rparr>"
  have t1: "fst (index_row_groups c 0 (row_groups pf) ?s1) = Some ParquetException \<longleftrightarrow>
      scan_throws c (row_groups pf)"
    by (rule index_row_groups_throws)
  have t2: "fst (index_row_groups c 0 (row_groups pf) (scan_start pf)) = Some ParquetException \<longleftrightarrow>
      scan_throws c (row_groups pf)"
    by (rule index_row_groups_throws)
  have a: "(\<exists>s'. Open fs name s = Some (Inr (False, s'))) \<longleftrightarrow> scan_throws c (row_groups pf)"
    unfolding Open_cases [of fs name pf s, OF assms] t1 [symmetric]
    using Some by (simp add: Let_def split: option.splits error.splits)
  have b: "Read fs name = Some (Inr None) \<longleftrightarrow> scan_throws c (row_groups pf)"
    unfolding Read_cases [of fs name pf, OF assms] t2 [symmetric]
    using Some by (simp split: option.splits error.splits)
  have c: "Open fs name s \<noteq> Some (Inl ParquetException)"
    unfolding Open_cases [of fs name pf s, OF assms]
    using Some by (simp add: Let_def split: option.splits error.splits)
  show ?thesis using a b c inp ex by simp
qed

theorem Open_fails_exactly_witness:
  "Read example_fs ''nopath.parquet'' = Some (Inr None) \<and>
   Read example_fs ''corrupt.parquet'' = Some (Inr None)"
proof -
  have a: "example_fs ''nopath.parquet'' = Some no_path_file"
    by (simp add: example_fs_def)
  have b: "''path'' \<notin> set (schema no_path_file)"
    by (simp add: no_path_file_def)
  have c: "example_fs ''corrupt.parquet'' = Some corrupt_file"
    by (simp add: example_fs_def)
  have d: "is_path_column (schema corrupt_file) 0 \<and> scan_throws 0 (row_groups corrupt_file)"
    by (simp add: corrupt_file_def is_path_column_def scan_throws_Cons path_chunk_throws_def)
  show ?thesis
    using b d
      Open_fails_exactly [of example_fs "''nopath.parquet''" no_path_file ParquetLayerData_init, OF a]
      Open_fails_exactly [of example_fs "''corrupt.parquet''" corrupt_file ParquetLayerData_init, OF c]
    by blast
qed

section \<open>The index after a successful open\<close>

lemma last_location_None:
  "last_location p rows = None \<longleftrightarrow>
     \<not> (IsAbsolutePath p \<and> p \<in> SdfPath_of_string ` fst ` set rows)"
  by (induction rows) (auto split: option.splits)

lemma last_location_last:
  "SdfPath_of_string str = p \<Longrightarrow> IsAbsolutePath p \<Longrightarrow>
   p \<notin> SdfPath_of_string ` fst ` set post \<Longrightarrow>
     last_location p (pre @ (str, loc) # post) = Some loc"
  by (simp add: last_location_append last_location_None [THEN iffD2])

text \<open>
  C6: for a file with a path column, the open succeeds exactly when every chunk of the
  path column can be read, whatever strings the rows hold: a row that does not parse to
  an absolute path fails nothing. After a successful open the path index has exactly
  the absolute paths that the rows of the path column parse to, and a path is mapped to
  the location (row group, row offset) of the last row, in scan order, that holds it.
\<close>

theorem path_index_last_write_wins:
  assumes "fs name = Some pf" "is_path_column (schema pf) c"
  shows "((\<exists>s. Read fs name = Some (Inr (Some s))) \<longleftrightarrow> scan_completes c (row_groups pf)) \<and>
         (\<forall>s. Read fs name = Some (Inr (Some s)) \<longrightarrow>
            (\<forall>p. index_find s p = last_location p (scanned_rows_from c 0 (row_groups pf))) \<and>
            (\<forall>p. index_count s p \<longleftrightarrow>
                   IsAbsolutePath p \<and>
                   p \<in> SdfPath_of_string ` fst ` set (scanned_rows_from c 0 (row_groups pf))) \<and>
            (\<forall>pre str loc post.
               scanned_rows_from c 0 (row_groups pf) = pre @ (str, loc) # post \<and>
               IsAbsolutePath (SdfPath_of_string str) \<and>
               SdfPath_of_string str \<notin> SdfPath_of_string ` fst ` set post
               \<longrightarrow> index_find s (SdfPath_of_string str) = Some loc))"
proof -
  let ?rows = "scanned_rows_from c 0 (row_groups pf)"
  have success: "s = built pf c \<and> scan_completes c (row_groups pf)"
    if "Read fs name = Some (Inr (Some s))" for s
  proof -
    from that obtain pf' c' where h: "fs name = Some pf'" "is_path_column (schema pf') c'"
      "scan_completes c' (row_groups pf')" "s = built pf' c'" by (rule Read_Some)
    from h(1) assms(1) have "pf' = pf" by simp
    moreover from this h(2) assms(2) have "c' = c" using is_path_column_unique by blast
    ultimately show ?thesis using h(3,4) by simp
  qed
  have a: "(\<exists>s. Read fs name = Some (Inr (Some s))) \<longleftrightarrow> scan_completes c (row_groups pf)"
  proof
    assume "\<exists>s. Read fs name = Some (Inr (Some s))"
    then show "scan_completes c (row_groups pf)" using success by blast
  next
    assume "scan_completes c (row_groups pf)"
    from Read_succeeds [of fs name pf c, OF assms this]
    show "\<exists>s. Read fs name = Some (Inr (Some s))" by (rule exI)
  qed
  have b: "(\<forall>p. index_find s p = last_location p ?rows) \<and>
      (\<forall>p. index_count s p \<longleftrightarrow> IsAbsolutePath p \<and> p \<in> SdfPath_of_string ` fst ` set ?rows) \<and>
      (\<forall>pre str loc post. ?rows = pre @ (str, loc) # post \<and>
         IsAbsolutePath (SdfPath_of_string str) \<and>
         SdfPath_of_string str \<notin> SdfPath_of_string ` fst ` set post
         \<longrightarrow> index_find s (SdfPath_of_string str) = Some loc)"
    if r: "Read fs name = Some (Inr (Some s))" for s
  proof -
    from success [OF r] have s: "s = built pf c" and sc: "scan_completes c (row_groups pf)"
      by simp_all
    have f: "\<And>p. index_find s p = last_location p ?rows"
      by (simp add: s index_find_def built_facts scan_end_map_of [OF sc])
    have k: "\<And>p. index_count s p \<longleftrightarrow> IsAbsolutePath p \<and> p \<in> SdfPath_of_string ` fst ` set ?rows"
      unfolding index_count_def f by (simp add: last_location_None)
    have l: "\<And>pre str loc post. ?rows = pre @ (str, loc) # post \<and>
        IsAbsolutePath (SdfPath_of_string str) \<and>
        SdfPath_of_string str \<notin> SdfPath_of_string ` fst ` set post
        \<Longrightarrow> index_find s (SdfPath_of_string str) = Some loc"
      unfolding f by (simp add: last_location_last)
    show ?thesis using f k l by blast
  qed
  show ?thesis using a b by blast
qed

theorem path_index_last_write_wins_witness:
  "index_find (opened ''scene.parquet'') (PrimPath True [''A'', ''B''])
     = Some \<lparr> rowGroup = 1, rowOffset = 0 \<rparr> \<and>
   index_find (opened ''scene.parquet'') (PrimPath False [''relative'', ''x'']) = None"
proof -
  have a: "example_fs ''scene.parquet'' = Some example_file"
    by (simp add: example_fs_def)
  have b: "is_path_column (schema example_file) 0"
    by (simp add: example_file_def is_path_column_def less_Suc_eq)
  from path_index_last_write_wins [of example_fs "''scene.parquet''" example_file 0, OF a b,
      THEN conjunct2, rule_format, OF opened_scene]
  have f: "\<forall>p. index_find (opened ''scene.parquet'') p
      = last_location p (scanned_rows_from 0 0 (row_groups example_file))"
    by (rule conjunct1)
  have r: "scanned_rows_from 0 0 (row_groups example_file) =
      [(''/A/C'', \<lparr> rowGroup = 0, rowOffset = 0 \<rparr>),
       (''relative/x'', \<lparr> rowGroup = 0, rowOffset = 1 \<rparr>),
       (''/A/B'', \<lparr> rowGroup = 0, rowOffset = 2 \<rparr>),
       (''/A/B'', \<lparr> rowGroup = 1, rowOffset = 0 \<rparr>),
       ([], \<lparr> rowGroup = 1, rowOffset = 1 \<rparr>)]"
    by (simp add: scanned_rows_from_def example_file_def located_def path_values_def
        enumerate_eq_zip upt_rec)
  have p1: "SdfPath_of_string ''/A/B'' = PrimPath True [''A'', ''B'']" by code_simp
  have p2: "SdfPath_of_string ''/A/C'' = PrimPath True [''A'', ''C'']" by code_simp
  have p3: "SdfPath_of_string ''relative/x'' = PrimPath False [''relative'', ''x'']" by code_simp
  have p4: "SdfPath_of_string [] = EmptyPath" by code_simp
  have "last_location (PrimPath True [''A'', ''B'']) (scanned_rows_from 0 0 (row_groups example_file))
      = Some \<lparr> rowGroup = 1, rowOffset = 0 \<rparr>"
    by (simp add: r p1 p2 p3 p4)
  moreover have "last_location (PrimPath False [''relative'', ''x''])
      (scanned_rows_from 0 0 (row_groups example_file)) = None"
    by (simp add: r p1 p2 p3 p4)
  ultimately show ?thesis using f by simp
qed

section \<open>The set of all paths\<close>

lemma steps_absolute:
  "IsAbsolutePath p \<Longrightarrow> c \<in> set (steps n p) \<Longrightarrow> IsAbsolutePath c \<and> c \<noteq> AbsoluteRootPath"
proof (induction n arbitrary: p)
  case 0
  then show ?case by simp
next
  case (Suc n)
  show ?case
  proof (cases "p = AbsoluteRootPath")
    case True
    with Suc.prems show ?thesis by simp
  next
    case False
    from absolute_parent [OF Suc.prems(1) False] have ap: "IsAbsolutePath (GetParentPath p)" by simp
    from Suc.prems(2) False have "c = p \<or> c \<in> set (steps n (GetParentPath p))" by simp
    then show ?thesis using Suc.IH [OF ap] Suc.prems(1) False by blast
  qed
qed

lemma steps_head:
  "IsAbsolutePath p \<Longrightarrow> p \<noteq> AbsoluteRootPath \<Longrightarrow> path_depth p \<le> n \<Longrightarrow> p \<in> set (steps n p)"
proof (cases n)
  case 0
  assume "IsAbsolutePath p" "p \<noteq> AbsoluteRootPath" "path_depth p \<le> n"
  with 0 show ?thesis using absolute_depth_0 by simp
next
  case (Suc m)
  assume "p \<noteq> AbsoluteRootPath"
  with Suc show ?thesis by simp
qed

lemma steps_parent_closed:
  "IsAbsolutePath p \<Longrightarrow> path_depth p \<le> n \<Longrightarrow> c \<in> set (steps n p) \<Longrightarrow>
   GetParentPath c \<noteq> AbsoluteRootPath \<Longrightarrow> GetParentPath c \<in> set (steps n p)"
proof (induction n arbitrary: p)
  case 0
  then show ?case by simp
next
  case (Suc n)
  show ?case
  proof (cases "p = AbsoluteRootPath")
    case True
    with Suc.prems show ?thesis by simp
  next
    case False
    from absolute_parent [OF Suc.prems(1) False] Suc.prems(2)
    have ap: "IsAbsolutePath (GetParentPath p)" and dp: "path_depth (GetParentPath p) \<le> n" by auto
    from Suc.prems(3) False have "c = p \<or> c \<in> set (steps n (GetParentPath p))" by simp
    then show ?thesis
    proof
      assume "c = p"
      with Suc.prems(4) have "GetParentPath p \<in> set (steps n (GetParentPath p))"
        using steps_head [OF ap _ dp] by simp
      with \<open>c = p\<close> False show ?thesis by simp
    next
      assume "c \<in> set (steps n (GetParentPath p))"
      from Suc.IH [OF ap dp this Suc.prems(4)] False show ?thesis by simp
    qed
  qed
qed

lemma covered_closed:
  assumes "IsAbsolutePath p" "q \<in> covered p" "q \<noteq> AbsoluteRootPath"
  shows "IsAbsolutePath q \<and> (GetParentPath q = AbsoluteRootPath \<or> GetParentPath q \<in> covered p)"
proof -
  have in_steps: "q \<in> set (walk_steps p)"
  proof (cases "q = p")
    case True
    with assms show ?thesis unfolding walk_steps_def using steps_head by simp
  next
    case False
    with assms(2) obtain c where c: "c \<in> set (walk_steps p)" "q = GetParentPath c"
      unfolding covered_def by auto
    with assms(3) show ?thesis
      unfolding walk_steps_def using steps_parent_closed [OF assms(1), of "path_depth p" c] by simp
  qed
  then have "IsAbsolutePath q" unfolding walk_steps_def using steps_absolute [OF assms(1)] by blast
  moreover have "GetParentPath q = AbsoluteRootPath \<or> GetParentPath q \<in> covered p"
    using in_steps unfolding covered_def by auto
  ultimately show ?thesis by simp
qed

lemma built_allPaths:
  "allPaths (built pf c) = (\<Union>p\<in>fst ` set (pathIndex (built pf c)). covered p)"
  by (simp add: built_def fold_visit_allPaths fold_visit_frame covered_def)

lemma built_closed:
  assumes "q \<in> allPaths (built pf c)" "q \<noteq> AbsoluteRootPath"
  shows "GetParentPath q = AbsoluteRootPath \<or> GetParentPath q \<in> allPaths (built pf c)"
proof -
  from assms(1) obtain p where p: "p \<in> fst ` set (pathIndex (built pf c))" "q \<in> covered p"
    unfolding built_allPaths by blast
  then have "IsAbsolutePath p" using scan_end_facts(5) [of pf c] by (auto simp add: built_facts)
  from covered_closed [OF this p(2) assms(2)] p(1) show ?thesis
    unfolding built_allPaths by blast
qed

lemma built_ancestors:
  "strict_ancestor a q \<Longrightarrow> q \<in> allPaths (built pf c) \<or> q = AbsoluteRootPath \<Longrightarrow>
   a \<noteq> AbsoluteRootPath \<Longrightarrow> a \<in> allPaths (built pf c)"
proof (induction rule: strict_ancestor.induct)
  case (parent p)
  then show ?case using built_closed by blast
next
  case (above p a)
  then show ?case using built_closed by blast
qed

text \<open>
  C5: for a file whose scan completes, the hierarchy is built (every walk reaches the
  root) and the open succeeds; the set of all paths then contains every indexed path,
  and with a path every strict ancestor of it other than the absolute root.
\<close>

theorem all_paths_ancestrally_closed:
  assumes "fs name = Some pf" "is_path_column (schema pf) c" "scan_completes c (row_groups pf)"
  shows "\<exists>s. Read fs name = Some (Inr (Some s)) \<and>
           (\<forall>p. index_count s p \<longrightarrow> p \<in> allPaths s) \<and>
           (\<forall>p a. p \<in> allPaths s \<and> strict_ancestor a p \<and> a \<noteq> AbsoluteRootPath
                  \<longrightarrow> a \<in> allPaths s)"
proof -
  let ?s = "built pf c"
  have r: "Read fs name = Some (Inr (Some ?s))"
    by (rule Read_succeeds [of fs name pf c, OF assms])
  have a: "p \<in> allPaths ?s" if "index_count ?s p" for p
  proof -
    from that have "p \<in> fst ` set (pathIndex ?s)"
      by (simp add: index_count_def index_find_def map_of_eq_None_iff)
    then show ?thesis unfolding built_allPaths covered_def by blast
  qed
  have b: "a \<in> allPaths ?s"
    if "p \<in> allPaths ?s \<and> strict_ancestor a p \<and> a \<noteq> AbsoluteRootPath" for p a
    using that built_ancestors by blast
  have "Read fs name = Some (Inr (Some ?s)) \<and>
      (\<forall>p. index_count ?s p \<longrightarrow> p \<in> allPaths ?s) \<and>
      (\<forall>p a. p \<in> allPaths ?s \<and> strict_ancestor a p \<and> a \<noteq> AbsoluteRootPath
             \<longrightarrow> a \<in> allPaths ?s)"
    using r a b by (intro conjI allI impI)
  then show ?thesis by (rule exI)
qed

theorem all_paths_ancestrally_closed_witness:
  "PrimPath True [''A'', ''B''] \<in> allPaths (opened ''scene.parquet'') \<and>
   PrimPath True [''A''] \<in> allPaths (opened ''scene.parquet'')"
proof -
  have f: "example_fs ''scene.parquet'' = Some example_file"
    by (simp add: example_fs_def)
  have g: "is_path_column (schema example_file) 0"
    by (simp add: example_file_def is_path_column_def less_Suc_eq)
  have h: "scan_completes 0 (row_groups example_file)"
    by (simp add: example_file_def scan_completes_def path_chunk_throws_def path_chunk_miscast_def)
  from all_paths_ancestrally_closed [of example_fs "''scene.parquet''" example_file 0, OF f g h]
  obtain s where s: "Read example_fs ''scene.parquet'' = Some (Inr (Some s))"
    and i: "\<forall>p. index_count s p \<longrightarrow> p \<in> allPaths s"
    and j: "\<forall>p a. p \<in> allPaths s \<and> strict_ancestor a p \<and> a \<noteq> AbsoluteRootPath
              \<longrightarrow> a \<in> allPaths s"
    by (elim exE conjE) (rule that)
  from s have o: "opened ''scene.parquet'' = s" by (simp add: opened_def)
  have a: "index_count (opened ''scene.parquet'') (PrimPath True [''A'', ''B''])"
    by code_simp
  have b: "strict_ancestor (PrimPath True [''A'']) (PrimPath True [''A'', ''B''])"
    using strict_ancestor.parent [of "PrimPath True [''A'', ''B'']"]
    by (simp add: AbsoluteRootPath_def)
  have c: "PrimPath True [''A''] \<noteq> AbsoluteRootPath"
    by (simp add: AbsoluteRootPath_def)
  from i a o have m: "PrimPath True [''A'', ''B''] \<in> allPaths s" by simp
  with j b c have "PrimPath True [''A''] \<in> allPaths s" by blast
  with m o show ?thesis by simp
qed

section \<open>The children map\<close>

lemma extend_Nil: "extend old [] = old"
  by (simp add: extend_def)

lemma extend_append: "extend (extend old xs) ys = extend old (xs @ ys)"
  by (simp add: extend_def)

lemma extend_Cons:
  "extend (Some (add1 n (case old of None \<Rightarrow> [] | Some l \<Rightarrow> l))) ns = extend old (n # ns)"
  by (simp add: extend_def)

lemma fold_register_child_childrenMap:
  "childrenMap (fold register_child cs s) q =
     extend (childrenMap s q) (map GetNameToken (filter (\<lambda>c. GetParentPath c = q) cs))"
proof (induction cs arbitrary: s)
  case Nil
  show ?case by (simp add: extend_Nil)
next
  case (Cons c cs)
  show ?case
  proof (cases "GetParentPath c = q")
    case True
    then show ?thesis
      by (simp add: Cons register_child_childrenMap extend_Cons)
  next
    case False
    then show ?thesis by (simp add: Cons register_child_childrenMap)
  qed
qed

lemma visit_childrenMap:
  "childrenMap (visit p s) q =
     extend (childrenMap s q) (map GetNameToken (filter (\<lambda>c. GetParentPath c = q) (walk_steps p)))"
  by (simp add: visit_def fold_register_child_childrenMap)

lemma fold_visit_childrenMap:
  "childrenMap (fold visit ps s) q = extend (childrenMap s q) (discovered_names ps q)"
proof (induction ps arbitrary: s)
  case Nil
  show ?case by (simp add: discovered_names_def extend_Nil)
next
  case (Cons p ps)
  have "discovered_names (p # ps) q =
      map GetNameToken (filter (\<lambda>c. GetParentPath c = q) (walk_steps p)) @ discovered_names ps q"
    by (simp add: discovered_names_def)
  then show ?case by (simp add: Cons visit_childrenMap extend_append)
qed

lemma built_childrenMap:
  "childrenMap (built pf c) q = discovered_children (map fst (pathIndex (built pf c))) q"
  by (simp add: built_def fold_visit_childrenMap fold_visit_frame discovered_children_def
      extend_def first_seen_def)

lemma sorted_paths_unique:
  assumes "sorted_wrt path_less xs" "sorted_wrt path_less ys" "set xs = set ys"
  shows "xs = ys"
proof -
  have sx: "sorted_wrt (<) (map path_key xs)" and sy: "sorted_wrt (<) (map path_key ys)"
    using assms(1,2) by (simp_all add: sorted_wrt_map path_less_def [abs_def])
  have "set (map path_key xs) = set (map path_key ys)" using assms(3) by simp
  with sx sy have "map path_key xs = map path_key ys"
    by (simp add: strict_sorted_iff sorted_distinct_set_unique)
  moreover have "inj path_key" by (rule injI) (rule path_key_inj)
  ultimately show ?thesis by (simp add: inj_map_eq_map)
qed

lemma built_sorted: "sorted_wrt path_less (map fst (pathIndex (built pf c)))"
  by (simp add: built_facts scan_end_facts)

text \<open>
  C3, as the code has it: for a file whose scan completes, the hierarchy is built and
  the open succeeds. The hierarchy builder visits the indexed paths in ascending path
  order, which is the order of the index and not the order of the rows. The children of
  a parent are listed in the order in which these walks first register them, so the
  children map is a function of the set of indexed paths alone.
\<close>

theorem children_in_discovery_order:
  assumes "fs name = Some pf" "is_path_column (schema pf) c" "scan_completes c (row_groups pf)"
  shows "\<exists>s. Read fs name = Some (Inr (Some s)) \<and>
           sorted_wrt path_less (map fst (pathIndex s)) \<and>
           (\<forall>parent. childrenMap s parent = discovered_children (map fst (pathIndex s)) parent) \<and>
           (\<forall>fs' name' s'.
              Read fs' name' = Some (Inr (Some s')) \<and>
              set (map fst (pathIndex s')) = set (map fst (pathIndex s))
              \<longrightarrow> childrenMap s' = childrenMap s)"
proof -
  let ?s = "built pf c"
  have r: "Read fs name = Some (Inr (Some ?s))"
    by (rule Read_succeeds [of fs name pf c, OF assms])
  have a: "sorted_wrt path_less (map fst (pathIndex ?s))" by (rule built_sorted)
  have b: "childrenMap ?s parent = discovered_children (map fst (pathIndex ?s)) parent" for parent
    by (rule built_childrenMap)
  have d: "childrenMap s' = childrenMap ?s"
    if h: "Read fs' name' = Some (Inr (Some s')) \<and>
      set (map fst (pathIndex s')) = set (map fst (pathIndex ?s))"
    for fs' :: FileSystem and name' s'
  proof -
    from h obtain pf' c' where s': "s' = built pf' c'" using Read_Some by blast
    have "sorted_wrt path_less (map fst (pathIndex s'))" unfolding s' by (rule built_sorted)
    with a h have "map fst (pathIndex s') = map fst (pathIndex ?s)"
      using sorted_paths_unique by blast
    then show ?thesis
      unfolding s' by (intro ext) (simp add: built_childrenMap)
  qed
  have "Read fs name = Some (Inr (Some ?s)) \<and>
      sorted_wrt path_less (map fst (pathIndex ?s)) \<and>
      (\<forall>parent. childrenMap ?s parent = discovered_children (map fst (pathIndex ?s)) parent) \<and>
      (\<forall>fs' name' s'.
         Read fs' name' = Some (Inr (Some s')) \<and>
         set (map fst (pathIndex s')) = set (map fst (pathIndex ?s))
         \<longrightarrow> childrenMap s' = childrenMap ?s)"
    using r a b d by (intro conjI allI impI)
  then show ?thesis by (rule exI)
qed

theorem children_in_discovery_order_witness:
  "childrenMap (opened ''scene.parquet'') (PrimPath True [''A'']) = Some [''B'', ''C''] \<and>
   childrenMap (opened ''scene.parquet'') AbsoluteRootPath = Some [''A'']"
proof -
  have f: "example_fs ''scene.parquet'' = Some example_file"
    by (simp add: example_fs_def)
  have g: "is_path_column (schema example_file) 0"
    by (simp add: example_file_def is_path_column_def less_Suc_eq)
  have h: "scan_completes 0 (row_groups example_file)"
    by (simp add: example_file_def scan_completes_def path_chunk_throws_def path_chunk_miscast_def)
  from children_in_discovery_order [of example_fs "''scene.parquet''" example_file 0, OF f g h]
  obtain s where s: "Read example_fs ''scene.parquet'' = Some (Inr (Some s))"
    and i: "\<forall>parent. childrenMap s parent = discovered_children (map fst (pathIndex s)) parent"
    by (elim exE conjE) (rule that)
  from s have o: "opened ''scene.parquet'' = s" by (simp add: opened_def)
  have a: "discovered_children (map fst (pathIndex (opened ''scene.parquet''))) (PrimPath True [''A''])
      = Some [''B'', ''C'']"
    by code_simp
  have b: "discovered_children (map fst (pathIndex (opened ''scene.parquet''))) AbsoluteRootPath
      = Some [''A'']"
    by code_simp
  show ?thesis using a b i o by simp
qed

text \<open>
  C3 as stated fails: the example file holds \<^verbatim>\<open>/A/C\<close> in a row before \<^verbatim>\<open>/A/B\<close>, so
  discovery in scan order lists C before B under \<^verbatim>\<open>/A\<close>; the children map lists B
  before C.
\<close>

theorem children_scan_order_counterexample:
  "\<not> (childrenMap (opened ''scene.parquet'') (PrimPath True [''A''])
        = discovered_children (scanned_paths example_file 0) (PrimPath True [''A'']))"
  by code_simp


section \<open>Existence and kind of a spec\<close>

text \<open>
  C1, as the code has it: \<^verbatim>\<open>HasSpec\<close> is true exactly for the absolute root, for a path
  that is not a property path and is in the set of all paths, and for a property path
  whose prim is in the path index and whose name is a property name. A property path is
  decided by its prim and name alone, whether or not it is in the set of all paths.
\<close>

theorem HasSpec_characterisation:
  "HasSpec s path \<longleftrightarrow>
     path = AbsoluteRootPath \<or>
     (\<not> IsPropertyPath path \<and> path \<in> allPaths s) \<or>
     (IsPropertyPath path \<and> index_count s (GetPrimPath path) \<and>
      GetNameToken path \<in> set (propertyNames s))"
  by (auto simp add: HasSpec_def Let_def AbsoluteRootPath_def)

theorem HasSpec_characterisation_witness:
  "HasSpec (opened ''scene.parquet'') (PropertyPath True [''A'', ''B''] ''temp'') \<and>
   HasSpec (opened ''scene.parquet'') (PrimPath True [''A'']) \<and>
   \<not> HasSpec (opened ''scene.parquet'') (PrimPath True [''DoesNotExist''])"
proof -
  have a: "index_count (opened ''scene.parquet'') (PrimPath True [''A'', ''B''])"
    by code_simp
  have b: "''temp'' \<in> set (propertyNames (opened ''scene.parquet''))"
    by code_simp
  have c: "PrimPath True [''A''] \<in> allPaths (opened ''scene.parquet'')"
    by code_simp
  have d: "PrimPath True [''DoesNotExist''] \<notin> allPaths (opened ''scene.parquet'')"
    by code_simp
  show ?thesis
    using a b c d
      HasSpec_characterisation [of "opened ''scene.parquet''" "PropertyPath True [''A'', ''B''] ''temp''"]
      HasSpec_characterisation [of "opened ''scene.parquet''" "PrimPath True [''A'']"]
      HasSpec_characterisation [of "opened ''scene.parquet''" "PrimPath True [''DoesNotExist'']"]
    by (simp add: AbsoluteRootPath_def)
qed

text \<open>
  C1 as stated fails: after reading the file whose path column holds \<^verbatim>\<open>/A.x\<close>, that
  path is in the set of all paths, and \<^verbatim>\<open>HasSpec\<close> is false for it, because its prim
  \<^verbatim>\<open>/A\<close> is not in the path index.
\<close>

theorem HasSpec_all_paths_counterexample:
  "\<not> (HasSpec (opened ''props.parquet'') (PropertyPath True [''A''] ''x'') \<longleftrightarrow>
        (PropertyPath True [''A''] ''x'' = AbsoluteRootPath \<or>
         PropertyPath True [''A''] ''x'' \<in> allPaths (opened ''props.parquet'') \<or>
         (IsPropertyPath (PropertyPath True [''A''] ''x'') \<and>
          index_count (opened ''props.parquet'') (GetPrimPath (PropertyPath True [''A''] ''x'')) \<and>
          GetNameToken (PropertyPath True [''A''] ''x'')
            \<in> set (propertyNames (opened ''props.parquet'')))))"
  by code_simp

text \<open>
  C10: \<^verbatim>\<open>HasSpec\<close> is true exactly when \<^verbatim>\<open>GetSpecType\<close> is not Unknown; and where
  \<^verbatim>\<open>HasSpec\<close> is true, the spec type is PseudoRoot for the root, Attribute for a
  property path and Prim for any other path.
\<close>

theorem HasSpec_GetSpecType_agree:
  "(HasSpec s path \<longleftrightarrow> GetSpecType s path \<noteq> SdfSpecTypeUnknown) \<and>
   (HasSpec s path \<longrightarrow>
      GetSpecType s path =
        (if path = AbsoluteRootPath then SdfSpecTypePseudoRoot
         else if IsPropertyPath path then SdfSpecTypeAttribute
         else SdfSpecTypePrim))"
  by (simp add: HasSpec_def GetSpecType_def Let_def)

theorem HasSpec_GetSpecType_agree_witness:
  "HasSpec (opened ''scene.parquet'') (PropertyPath True [''A'', ''C''] ''label'') \<and>
   GetSpecType (opened ''scene.parquet'') (PropertyPath True [''A'', ''C''] ''label'')
     = SdfSpecTypeAttribute \<and>
   HasSpec (opened ''scene.parquet'') (PrimPath True [''A'']) \<and>
   GetSpecType (opened ''scene.parquet'') (PrimPath True [''A'']) = SdfSpecTypePrim"
proof -
  have a: "HasSpec (opened ''scene.parquet'') (PropertyPath True [''A'', ''C''] ''label'')"
    by code_simp
  have b: "HasSpec (opened ''scene.parquet'') (PrimPath True [''A''])"
    by code_simp
  show ?thesis
    using a b
      HasSpec_GetSpecType_agree [of "opened ''scene.parquet''" "PropertyPath True [''A'', ''C''] ''label''"]
      HasSpec_GetSpecType_agree [of "opened ''scene.parquet''" "PrimPath True [''A'']"]
    by (simp add: AbsoluteRootPath_def)
qed

section \<open>Mutation leaves the data as it is\<close>

lemma mutate_all_id: "mutate_all s ms = s"
proof (induction ms arbitrary: s)
  case Nil
  show ?case by simp
next
  case (Cons m ms)
  have "mutate s m = s"
    by (cases m)
      (simp_all add: CreateSpec_def Set_def Erase_def EraseSpec_def MoveSpec_def
        SetTimeSample_def EraseTimeSample_def)
  with Cons show ?case by simp
qed

text \<open>
  C7: after any sequence of calls of \<^verbatim>\<open>CreateSpec\<close>, \<^verbatim>\<open>Set\<close>, \<^verbatim>\<open>Erase\<close>,
  \<^verbatim>\<open>EraseSpec\<close>, \<^verbatim>\<open>MoveSpec\<close>, \<^verbatim>\<open>SetTimeSample\<close> and \<^verbatim>\<open>EraseTimeSample\<close> the data is
  the data before the calls, and \<^verbatim>\<open>HasSpec\<close>, \<^verbatim>\<open>Has\<close>, \<^verbatim>\<open>Get\<close>, \<^verbatim>\<open>List\<close> and
  \<^verbatim>\<open>GetSpecType\<close> answer as they did before, for every path and field.
\<close>

theorem mutation_changes_nothing:
  "mutate_all s ms = s \<and>
   HasSpec (mutate_all s ms) path = HasSpec s path \<and>
   Has (mutate_all s ms) path field = Has s path field \<and>
   Get (mutate_all s ms) path field = Get s path field \<and>
   List (mutate_all s ms) path = List s path \<and>
   GetSpecType (mutate_all s ms) path = GetSpecType s path"
  by (simp add: mutate_all_id)

theorem mutation_changes_nothing_witness:
  "HasSpec
     (mutate_all (opened ''scene.parquet'')
        [CallEraseSpec (PrimPath True [''A'']),
         CallSet (PropertyPath True [''A'', ''B''] ''temp'') Default (VtFloat 0),
         CallCreateSpec (PrimPath True [''New'']) SdfSpecTypePrim,
         CallMoveSpec (PrimPath True [''A'']) (PrimPath True [''Z''])])
     (PrimPath True [''A'']) \<and>
   \<not> HasSpec
     (mutate_all (opened ''scene.parquet'')
        [CallEraseSpec (PrimPath True [''A'']),
         CallSet (PropertyPath True [''A'', ''B''] ''temp'') Default (VtFloat 0),
         CallCreateSpec (PrimPath True [''New'']) SdfSpecTypePrim,
         CallMoveSpec (PrimPath True [''A'']) (PrimPath True [''Z''])])
     (PrimPath True [''New''])"
proof -
  have a: "HasSpec (opened ''scene.parquet'') (PrimPath True [''A''])"
    by code_simp
  have b: "\<not> HasSpec (opened ''scene.parquet'') (PrimPath True [''New''])"
    by code_simp
  show ?thesis
    using a b
      mutation_changes_nothing [of "opened ''scene.parquet''"
        "[CallEraseSpec (PrimPath True [''A'']),
          CallSet (PropertyPath True [''A'', ''B''] ''temp'') Default (VtFloat 0),
          CallCreateSpec (PrimPath True [''New'']) SdfSpecTypePrim,
          CallMoveSpec (PrimPath True [''A'']) (PrimPath True [''Z''])]"]
    by metis
qed

section \<open>Loading a block\<close>

lemma LoadBlock_cases:
  assumes "reader s = Some pf"
  shows "LoadBlock field rg s =
     (if blockCache s field rg \<noteq> None then Inr s
      else if length (row_groups pf) \<le> rg then Inl ParquetException
      else
        (case find_column 0 (schema pf) field of
           None \<Rightarrow> Inr s
         | Some c \<Rightarrow>
             if length (columns (row_groups pf ! rg)) \<le> c then Inl ParquetException
             else if \<not> supported (chunk_values (chunk_of pf rg c)) then Inr s
             else if chunk_throws (chunk_of pf rg c) then Inl ParquetException
             else Inr ((put_block field rg
                          (decode_chunk (num_rows (row_groups pf ! rg)) (chunk_values (chunk_of pf rg c))) s)
                        \<lparr> decodes := decodes s @ [(rg, c)] \<rparr>)))"
proof (cases "find_column 0 (schema pf) field")
  case None
  with assms show ?thesis by (simp add: LoadBlock_def)
next
  case (Some c)
  show ?thesis
    using assms Some
    by (cases "chunk_values (chunk_of pf rg c)")
      (simp_all add: LoadBlock_def store_block_def put_block_def chunk_of_def Let_def)
qed

lemma LoadBlock_hit: "blockCache s field rg \<noteq> None \<Longrightarrow> LoadBlock field rg s = Inr s"
  by (simp add: LoadBlock_def)

section \<open>The cache stays consistent with the file\<close>

lemma same_structure_refl: "same_structure s s"
  by (simp add: same_structure_def)

lemma same_structure_trans: "same_structure s s1 \<Longrightarrow> same_structure s1 s2 \<Longrightarrow> same_structure s s2"
  by (simp add: same_structure_def)

lemma consistent_same_index:
  "consistent pf s \<Longrightarrow> same_structure s s' \<Longrightarrow> blockCache s' = blockCache s \<Longrightarrow> consistent pf s'"
  by (simp add: consistent_def same_structure_def index_find_def)

lemma put_block_structure: "same_structure s (put_block field rg block s)"
  by (simp add: same_structure_def put_block_def)

lemma put_block_idem: "blockCache s field rg = Some block \<Longrightarrow> put_block field rg block s = s"
  by (simp add: put_block_def map_upd_triv)

lemma consistent_put_block:
  "consistent pf s \<Longrightarrow> consistent pf (put_block field rg (expected_block pf field rg) s)"
  by (auto simp add: consistent_def put_block_def index_find_def)

lemma consistent_decodes: "consistent pf (s\<lparr> decodes := d \<rparr>) = consistent pf s"
  by (simp add: consistent_def index_find_def)

lemma LoadBlock_consistent:
  assumes "consistent pf s" "LoadBlock field rg s = Inr s1"
  shows "consistent pf s1"
    and "same_structure s s1"
    and "blockCache s1 field rg = None \<Longrightarrow> expected_block pf field rg = VtEmpty"
proof -
  from assms(1) have rd: "reader s = Some pf" by (simp add: consistent_def)
  note lb = assms(2) [unfolded LoadBlock_cases [OF rd]]
  show "consistent pf s1"
  proof (cases "s1 = s")
    case True
    with assms(1) show ?thesis by simp
  next
    case False
    with lb obtain c where c: "find_column 0 (schema pf) field = Some c"
      and s1: "s1 = (put_block field rg
                 (decode_chunk (num_rows (row_groups pf ! rg)) (chunk_values (chunk_of pf rg c))) s)
               \<lparr> decodes := decodes s @ [(rg, c)] \<rparr>"
      by (auto split: if_splits option.splits)
    from c have "expected_block pf field rg =
        decode_chunk (num_rows (row_groups pf ! rg)) (chunk_values (chunk_of pf rg c))"
      by (simp add: expected_block_def)
    with s1 assms(1) show ?thesis
      by (metis consistent_decodes consistent_put_block)
  qed
  show "same_structure s s1"
    using lb by (auto simp add: same_structure_def put_block_def split: if_splits option.splits)
  show "expected_block pf field rg = VtEmpty" if "blockCache s1 field rg = None"
  proof (cases "find_column 0 (schema pf) field")
    case None
    then show ?thesis by (simp add: expected_block_def)
  next
    case (Some c)
    from lb that Some have "\<not> supported (chunk_values (chunk_of pf rg c))"
      by (auto simp add: put_block_def split: if_splits)
    then have "decode_chunk (num_rows (row_groups pf ! rg)) (chunk_values (chunk_of pf rg c)) = VtEmpty"
      by (cases "chunk_values (chunk_of pf rg c)") simp_all
    with Some show ?thesis by (simp add: expected_block_def)
  qed
qed

lemma cache_at_expected:
  assumes "consistent pf s1" "blockCache s1 field rg = None \<Longrightarrow> expected_block pf field rg = VtEmpty"
  shows "cache_at field rg s1 =
     (expected_block pf field rg, put_block field rg (expected_block pf field rg) s1)"
proof (cases "blockCache s1 field rg")
  case None
  with assms(2) show ?thesis by (simp add: cache_at_def put_block_def)
next
  case (Some block)
  with assms(1) have "block = expected_block pf field rg" by (simp add: consistent_def)
  with Some show ?thesis by (simp add: cache_at_def put_block_idem)
qed

lemma load_then_index:
  assumes "consistent pf s" "LoadBlock field rg s = Inr s1"
  shows "cache_at field rg s1 =
     (expected_block pf field rg, put_block field rg (expected_block pf field rg) s1)"
    and "consistent pf (put_block field rg (expected_block pf field rg) s1)"
    and "same_structure s (put_block field rg (expected_block pf field rg) s1)"
proof -
  note l = LoadBlock_consistent [OF assms]
  show "cache_at field rg s1 =
     (expected_block pf field rg, put_block field rg (expected_block pf field rg) s1)"
    by (rule cache_at_expected [OF l(1) l(3)])
  show "consistent pf (put_block field rg (expected_block pf field rg) s1)"
    by (rule consistent_put_block [OF l(1)])
  show "same_structure s (put_block field rg (expected_block pf field rg) s1)"
    by (rule same_structure_trans [OF l(2) put_block_structure])
qed

lemma Get_state:
  "Get s path field = Inr (v, s') \<Longrightarrow>
     s' = s \<or>
     (\<exists>rg s1. LoadBlock (GetNameToken path) rg s = Inr s1 \<and>
                s' = snd (cache_at (GetNameToken path) rg s1))"
  by (auto simp add: Get_def Let_def split: if_splits option.splits sum.splits prod.splits)
    (metis snd_conv)+

lemma Get_preserves:
  assumes "consistent pf s" "Get s path field = Inr (v, s')"
  shows "consistent pf s' \<and> same_structure s s'"
proof -
  from Get_state [OF assms(2)] show ?thesis
  proof
    assume "s' = s"
    with assms(1) show ?thesis by (simp add: same_structure_refl)
  next
    assume "\<exists>rg s1. LoadBlock (GetNameToken path) rg s = Inr s1 \<and>
                s' = snd (cache_at (GetNameToken path) rg s1)"
    then obtain rg s1 where l: "LoadBlock (GetNameToken path) rg s = Inr s1"
      and s': "s' = snd (cache_at (GetNameToken path) rg s1)" by blast
    from load_then_index [OF assms(1) l] s' show ?thesis by simp
  qed
qed

lemma Has_state:
  "Has s path field = Inr (r, s') \<Longrightarrow>
     s' = s \<or> (\<exists>v. Get s path field = Inr (v, s')) \<or>
     (\<exists>rg s1. LoadBlock (GetNameToken path) rg s = Inr s1 \<and>
                s' = snd (cache_at (GetNameToken path) rg s1))"
  by (auto simp add: Has_def Let_def split: if_splits option.splits sum.splits prod.splits)
    (metis snd_conv)+

lemma Has_preserves:
  assumes "consistent pf s" "Has s path field = Inr (r, s')"
  shows "consistent pf s' \<and> same_structure s s'"
proof -
  from Has_state [OF assms(2)]
  consider "s' = s" | v where "Get s path field = Inr (v, s')"
    | rg s1 where "LoadBlock (GetNameToken path) rg s = Inr s1"
        "s' = snd (cache_at (GetNameToken path) rg s1)"
    by blast
  then show ?thesis
  proof cases
    case 1
    with assms(1) show ?thesis by (simp add: same_structure_refl)
  next
    case 2
    from Get_preserves [OF assms(1) this] show ?thesis .
  next
    case 3
    from load_then_index [OF assms(1) 3(1)] 3(2) show ?thesis by simp
  qed
qed

subsection \<open>Indexed locations lie inside their row groups\<close>

lemma last_location_mem: "last_location p rows = Some loc \<Longrightarrow> \<exists>v. (v, loc) \<in> set rows"
  by (induction rows) (auto split: option.splits if_splits)

lemma path_values_length: "length (path_values c g) \<le> num_rows g"
  by (cases "chunk_values (columns g ! c)") (simp_all add: path_values_def)

lemma located_mem:
  "(v, loc) \<in> set (located rg 0 vs) \<Longrightarrow> rowGroup loc = rg \<and> rowOffset loc < length vs"
  by (auto simp add: located_def in_set_enumerate_eq)

lemma scanned_rows_bounds:
  "(v, loc) \<in> set (scanned_rows_from c k gs) \<Longrightarrow>
     k \<le> rowGroup loc \<and> rowGroup loc - k < length gs \<and>
     rowOffset loc < num_rows (gs ! (rowGroup loc - k))"
proof (induction gs arbitrary: k)
  case Nil
  then show ?case by (simp add: scanned_rows_from_Nil)
next
  case (Cons g gs)
  from Cons.prems
  have "(v, loc) \<in> set (located k 0 (path_values c g)) \<or> (v, loc) \<in> set (scanned_rows_from c (Suc k) gs)"
    by (simp add: scanned_rows_from_Cons)
  then show ?case
  proof
    assume "(v, loc) \<in> set (located k 0 (path_values c g))"
    from located_mem [OF this] path_values_length [of c g] show ?thesis by simp
  next
    assume "(v, loc) \<in> set (scanned_rows_from c (Suc k) gs)"
    from Cons.IH [OF this]
    have a: "Suc k \<le> rowGroup loc" "rowGroup loc - Suc k < length gs"
      "rowOffset loc < num_rows (gs ! (rowGroup loc - Suc k))" by auto
    then obtain d where d: "rowGroup loc - k = Suc d" "rowGroup loc - Suc k = d"
      by (metis Suc_diff_Suc Suc_le_lessD)
    with a show ?thesis by simp
  qed
qed

lemma consistent_built:
  assumes "scan_completes c (row_groups pf)"
  shows "consistent pf (built pf c)"
proof -
  have "\<And>p loc. index_find (built pf c) p = Some loc \<Longrightarrow>
      rowGroup loc < length (row_groups pf) \<and> rowOffset loc < num_rows (row_groups pf ! rowGroup loc)"
  proof -
    fix p loc assume "index_find (built pf c) p = Some loc"
    then have "last_location p (scanned_rows_from c 0 (row_groups pf)) = Some loc"
      by (simp add: index_find_def built_facts scan_end_map_of [OF assms])
    from last_location_mem [OF this] obtain v
      where "(v, loc) \<in> set (scanned_rows_from c 0 (row_groups pf))" by blast
    from scanned_rows_bounds [OF this]
    show "rowGroup loc < length (row_groups pf) \<and> rowOffset loc < num_rows (row_groups pf ! rowGroup loc)"
      by simp
  qed
  then show ?thesis by (simp add: consistent_def built_facts)
qed

lemma reachable_consistent: "reachable pf s \<Longrightarrow> consistent pf s"
proof (induction rule: reachable.induct)
  case (opened fs name s)
  from opened(2) obtain pf' c where "fs name = Some pf'" "scan_completes c (row_groups pf')"
    "s = built pf' c" by (rule Read_Some)
  with opened(1) show ?case using consistent_built by simp
next
  case (got s path field v s')
  then show ?case using Get_preserves by blast
next
  case (had s path field r s')
  then show ?case using Has_preserves by blast
next
  case (mutated s m)
  have "mutate s m = s" using mutate_all_id [of s "[m]"] by simp
  with mutated show ?case by simp
qed

lemma example_fs_scene: "example_fs ''scene.parquet'' = Some example_file"
  by (simp add: example_fs_def)

lemma reachable_scene: "reachable example_file (opened ''scene.parquet'')"
  by (rule reachable.opened [OF example_fs_scene opened_scene])

subsection \<open>Cache entries are never dropped\<close>

lemma LoadBlock_keeps:
  "LoadBlock field rg s = Inr s1 \<Longrightarrow> blockCache s f' rg' = Some b \<Longrightarrow> blockCache s1 f' rg' = Some b"
  by (auto simp add: LoadBlock_def store_block_def Let_def
      split: if_splits option.splits ColumnValues.splits)

lemma cache_at_keeps:
  "blockCache s f' rg' = Some b \<Longrightarrow> blockCache (snd (cache_at field rg s)) f' rg' = Some b"
  by (auto simp add: cache_at_def split: option.splits)

lemma Get_keeps:
  assumes "Get s path field = Inr (v, s')" "blockCache s f' rg' = Some b"
  shows "blockCache s' f' rg' = Some b"
proof -
  from Get_state [OF assms(1)]
  consider "s' = s"
    | rg s1 where "LoadBlock (GetNameToken path) rg s = Inr s1"
        "s' = snd (cache_at (GetNameToken path) rg s1)"
    by blast
  then show ?thesis
  proof cases
    case 1
    with assms(2) show ?thesis by simp
  next
    case 2
    from LoadBlock_keeps [OF 2(1) assms(2)] have "blockCache s1 f' rg' = Some b" .
    from cache_at_keeps [OF this] 2(2) show ?thesis by simp
  qed
qed

lemma Has_keeps:
  assumes "Has s path field = Inr (r, s')" "blockCache s f' rg' = Some b"
  shows "blockCache s' f' rg' = Some b"
proof -
  from Has_state [OF assms(1)]
  consider "s' = s" | v where "Get s path field = Inr (v, s')"
    | rg s1 where "LoadBlock (GetNameToken path) rg s = Inr s1"
        "s' = snd (cache_at (GetNameToken path) rg s1)"
    by blast
  then show ?thesis
  proof cases
    case 1
    with assms(2) show ?thesis by simp
  next
    case 2
    from Get_keeps [OF this assms(2)] show ?thesis .
  next
    case 3
    from LoadBlock_keeps [OF 3(1) assms(2)] have "blockCache s1 f' rg' = Some b" .
    from cache_at_keeps [OF this] 3(2) show ?thesis by simp
  qed
qed

lemma LoadBlock_miss:
  assumes "reader s = Some pf" "rg < length (row_groups pf)"
    and "find_column 0 (schema pf) field = Some c" "c < length (columns (row_groups pf ! rg))"
    and "supported (chunk_values (chunk_of pf rg c))" "\<not> chunk_throws (chunk_of pf rg c)"
    and "blockCache s field rg = None"
  shows "LoadBlock field rg s =
     Inr ((put_block field rg
            (decode_chunk (num_rows (row_groups pf ! rg)) (chunk_values (chunk_of pf rg c))) s)
          \<lparr> decodes := decodes s @ [(rg, c)] \<rparr>)"
proof -
  have "\<not> length (row_groups pf) \<le> rg" "\<not> length (columns (row_groups pf ! rg)) \<le> c"
    using assms(2,4) by simp_all
  then show ?thesis
    by (simp add: LoadBlock_cases [OF assms(1)] assms(3,5,6,7))
qed

lemma LoadBlock_idempotent:
  assumes "LoadBlock field rg s = Inr s1"
  shows "LoadBlock field rg s1 = Inr s1"
proof (cases "s1 = s")
  case True
  with assms show ?thesis by simp
next
  case False
  have miss: "blockCache s field rg = None"
  proof (rule ccontr)
    assume "blockCache s field rg \<noteq> None"
    from LoadBlock_hit [OF this] assms False show False by simp
  qed
  from assms miss obtain pf where rd: "reader s = Some pf"
    by (cases "reader s") (simp_all add: LoadBlock_def)
  from assms [unfolded LoadBlock_cases [OF rd]] False
  obtain block d where "s1 = (put_block field rg block s)\<lparr> decodes := d \<rparr>"
    by (auto split: if_splits option.splits)
  then have "blockCache s1 field rg \<noteq> None" by (simp add: put_block_def)
  then show ?thesis by (rule LoadBlock_hit)
qed

text \<open>
  C4: for a field whose column has a supported type and can be read, and whose block is
  not yet cached, the first \<^verbatim>\<open>_LoadBlock\<close> issues one batch read of that column chunk
  and stores the decoded array; a second call changes nothing, so two calls issue
  exactly one read. Any later call that finds the entry returns without a read, no
  \<^verbatim>\<open>Get\<close> or \<^verbatim>\<open>Has\<close> removes or replaces the entry, and for every field and row
  group a call that follows a call that returned issues no read.
\<close>

theorem block_decoded_once:
  assumes "reader s = Some pf" "rg < length (row_groups pf)"
    and "is_column_of (schema pf) field c" "c < length (columns (row_groups pf ! rg))"
    and "supported (chunk_values (chunk_of pf rg c))" "\<not> chunk_throws (chunk_of pf rg c)"
    and "blockCache s field rg = None"
  shows "\<exists>s1. LoadBlock field rg s = Inr s1 \<and>
           decodes s1 = decodes s @ [(rg, c)] \<and>
           blockCache s1 field rg =
             Some (decode_chunk (num_rows (row_groups pf ! rg)) (chunk_values (chunk_of pf rg c))) \<and>
           LoadBlock field rg s1 = Inr s1 \<and>
           (\<forall>s2. blockCache s2 field rg \<noteq> None \<longrightarrow> LoadBlock field rg s2 = Inr s2) \<and>
           (\<forall>path f v s2. Get s1 path f = Inr (v, s2) \<longrightarrow> blockCache s2 field rg = blockCache s1 field rg) \<and>
           (\<forall>path f r s2. Has s1 path f = Inr (r, s2) \<longrightarrow> blockCache s2 field rg = blockCache s1 field rg) \<and>
           (\<forall>f' rg' t t1. LoadBlock f' rg' t = Inr t1 \<longrightarrow> LoadBlock f' rg' t1 = Inr t1)"
proof -
  define block where
    "block = decode_chunk (num_rows (row_groups pf ! rg)) (chunk_values (chunk_of pf rg c))"
  define s1 where "s1 = (put_block field rg block s)\<lparr> decodes := decodes s @ [(rg, c)] \<rparr>"
  from assms(3) have fc: "find_column 0 (schema pf) field = Some c"
    by (simp add: find_column_is_column_of)
  have l: "LoadBlock field rg s = Inr s1"
    unfolding s1_def block_def by (rule LoadBlock_miss [OF assms(1,2) fc assms(4,5,6,7)])
  have d: "decodes s1 = decodes s @ [(rg, c)]" by (simp add: s1_def)
  have e: "blockCache s1 field rg = Some block" by (simp add: s1_def put_block_def)
  have h: "LoadBlock field rg s2 = Inr s2" if "blockCache s2 field rg \<noteq> None" for s2
    using that by (rule LoadBlock_hit)
  have h1: "LoadBlock field rg s1 = Inr s1" using l by (rule LoadBlock_idempotent)
  have g: "blockCache s2 field rg = blockCache s1 field rg" if "Get s1 path f = Inr (v, s2)"
    for path f v s2
    by (simp only: Get_keeps [OF that e] e)
  have k: "blockCache s2 field rg = blockCache s1 field rg" if "Has s1 path f = Inr (r, s2)"
    for path f r s2
    by (simp only: Has_keeps [OF that e] e)
  have i: "LoadBlock f' rg' t1 = Inr t1" if "LoadBlock f' rg' t = Inr t1" for f' rg' t t1
    using that by (rule LoadBlock_idempotent)
  have "LoadBlock field rg s = Inr s1 \<and>
           decodes s1 = decodes s @ [(rg, c)] \<and>
           blockCache s1 field rg = Some block \<and>
           LoadBlock field rg s1 = Inr s1 \<and>
           (\<forall>s2. blockCache s2 field rg \<noteq> None \<longrightarrow> LoadBlock field rg s2 = Inr s2) \<and>
           (\<forall>path f v s2. Get s1 path f = Inr (v, s2) \<longrightarrow> blockCache s2 field rg = blockCache s1 field rg) \<and>
           (\<forall>path f r s2. Has s1 path f = Inr (r, s2) \<longrightarrow> blockCache s2 field rg = blockCache s1 field rg) \<and>
           (\<forall>f' rg' t t1. LoadBlock f' rg' t = Inr t1 \<longrightarrow> LoadBlock f' rg' t1 = Inr t1)"
    using l d e h1 h g k i by (intro conjI allI impI)
  then show ?thesis unfolding block_def by (rule exI)
qed

theorem block_decoded_once_witness:
  "\<exists>s1. LoadBlock ''temp'' 1 (opened ''scene.parquet'') = Inr s1 \<and>
         decodes s1 = decodes (opened ''scene.parquet'') @ [(1, 1)] \<and>
         LoadBlock ''temp'' 1 s1 = Inr s1"
proof -
  have a: "reader (opened ''scene.parquet'') = Some example_file"
    using reachable_consistent [OF reachable_scene] by (simp add: consistent_def)
  have b: "1 < length (row_groups example_file)"
    by (simp add: example_file_def)
  have c: "is_column_of (schema example_file) ''temp'' 1"
    by (simp add: is_column_of_def example_file_def)
  have d: "1 < length (columns (row_groups example_file ! 1))"
    by (simp add: example_file_def)
  have e: "supported (chunk_values (chunk_of example_file 1 1))"
    by (simp add: chunk_of_def example_file_def)
  have f: "\<not> chunk_throws (chunk_of example_file 1 1)"
    by (simp add: chunk_of_def example_file_def)
  have g: "blockCache (opened ''scene.parquet'') ''temp'' 1 = None"
    by code_simp
  from block_decoded_once [OF a b c d e f g] show ?thesis by blast
qed

section \<open>Reading a field\<close>

lemma read_into_nth: "i < length vs \<Longrightarrow> i < n \<Longrightarrow> read_into n z vs ! i = vs ! i"
  by (simp add: read_into_def nth_append)

lemma read_into_length: "length (read_into n z vs) = n"
  by (simp add: read_into_def)

lemma block_element_decode:
  "typed_value_at cv i = Some v \<Longrightarrow> i < n \<Longrightarrow> block_element (decode_chunk n cv) i = Inr v"
  by (cases cv)
    (auto simp add: element_at_def read_into_nth read_into_length split: if_splits)

lemma typed_value_supported: "typed_value_at cv i = Some v \<Longrightarrow> supported cv"
  by (cases cv) simp_all

lemma block_type_decode:
  "map_option GetAsToken (block_type (decode_chunk n cv)) = type_name_of cv"
  by (cases cv) simp_all

lemma supported_type_name: "supported cv \<Longrightarrow> \<exists>t. type_name_of cv = Some t"
  by (cases cv) simp_all

lemma token_distinct:
  "Default \<noteq> PrimChildren" "Default \<noteq> PropertyChildren" "Default \<noteq> Specifier"
  "TypeName \<noteq> PrimChildren" "TypeName \<noteq> PropertyChildren" "TypeName \<noteq> Specifier"
  "TypeName \<noteq> Default"
  by (simp_all add: Default_def TypeName_def PrimChildren_def PropertyChildren_def Specifier_def)

lemma Get_Default_unfold:
  assumes "IsPropertyPath path" "index_find s (GetPrimPath path) = Some loc"
    and "GetNameToken path \<in> set (propertyNames s)"
  shows "Get s path Default =
     (case LoadBlock (GetNameToken path) (rowGroup loc) s of
        Inl e \<Rightarrow> Inl e
      | Inr s1 \<Rightarrow>
          (case cache_at (GetNameToken path) (rowGroup loc) s1 of
             (block, s2) \<Rightarrow>
               (case block_element block (rowOffset loc) of
                  Inl e \<Rightarrow> Inl e
                | Inr v \<Rightarrow> Inr (v, s2))))"
  unfolding Get_def Let_def using assms token_distinct by simp

lemma Get_TypeName_unfold:
  assumes "IsPropertyPath path" "index_find s (GetPrimPath path) = Some loc"
    and "GetNameToken path \<in> set (propertyNames s)"
  shows "Get s path TypeName =
     (case LoadBlock (GetNameToken path) (rowGroup loc) s of
        Inl e \<Rightarrow> Inl e
      | Inr s1 \<Rightarrow>
          (case cache_at (GetNameToken path) (rowGroup loc) s1 of
             (block, s2) \<Rightarrow>
               (case block_type block of
                  Some t \<Rightarrow> Inr (VtToken (GetAsToken t), s2)
                | None \<Rightarrow> Inr (VtEmpty, s2))))"
  unfolding Get_def Let_def using assms token_distinct by simp

lemma Has_TypeName_unfold:
  assumes "IsPropertyPath path" "index_find s (GetPrimPath path) = Some loc"
    and "GetNameToken path \<in> set (propertyNames s)"
  shows "Has s path TypeName =
     (case LoadBlock (GetNameToken path) (rowGroup loc) s of
        Inl e \<Rightarrow> Inl e
      | Inr s1 \<Rightarrow>
          (case cache_at (GetNameToken path) (rowGroup loc) s1 of
             (block, s2) \<Rightarrow>
               Inr ((True, map_option VtValueTypeName (block_type block)), s2)))"
  unfolding Has_def Let_def using assms token_distinct by simp

lemma Has_Default_unfold:
  assumes "IsPropertyPath path" "index_find s (GetPrimPath path) = Some loc"
    and "GetNameToken path \<in> set (propertyNames s)"
  shows "Has s path Default =
     (case Get s path Default of
        Inl e \<Rightarrow> Inl e
      | Inr (val, s1) \<Rightarrow> Inr ((val \<noteq> VtEmpty, if val \<noteq> VtEmpty then Some val else None), s1))"
  unfolding Has_def Let_def using assms by simp

lemma Get_field_Default:
  assumes "consistent pf s" "IsPropertyPath path" "index_find s (GetPrimPath path) = Some loc"
    and "GetNameToken path \<in> set (propertyNames s)"
    and "LoadBlock (GetNameToken path) (rowGroup loc) s = Inr s1"
  shows "Get s path Default =
     (case block_element (expected_block pf (GetNameToken path) (rowGroup loc)) (rowOffset loc) of
        Inl e \<Rightarrow> Inl e
      | Inr v \<Rightarrow>
          Inr (v, put_block (GetNameToken path) (rowGroup loc)
                    (expected_block pf (GetNameToken path) (rowGroup loc)) s1))"
  unfolding Get_Default_unfold [OF assms(2,3,4)]
  by (simp only: assms(5) load_then_index(1) [OF assms(1,5)] sum.case prod.case)

lemma Get_field_TypeName:
  assumes "consistent pf s" "IsPropertyPath path" "index_find s (GetPrimPath path) = Some loc"
    and "GetNameToken path \<in> set (propertyNames s)"
    and "LoadBlock (GetNameToken path) (rowGroup loc) s = Inr s1"
  shows "Get s path TypeName =
     (case block_type (expected_block pf (GetNameToken path) (rowGroup loc)) of
        Some t \<Rightarrow>
          Inr (VtToken (GetAsToken t),
               put_block (GetNameToken path) (rowGroup loc)
                 (expected_block pf (GetNameToken path) (rowGroup loc)) s1)
      | None \<Rightarrow>
          Inr (VtEmpty,
               put_block (GetNameToken path) (rowGroup loc)
                 (expected_block pf (GetNameToken path) (rowGroup loc)) s1))"
  unfolding Get_TypeName_unfold [OF assms(2,3,4)]
  by (simp only: assms(5) load_then_index(1) [OF assms(1,5)] sum.case prod.case)

lemma Has_field_TypeName:
  assumes "consistent pf s" "IsPropertyPath path" "index_find s (GetPrimPath path) = Some loc"
    and "GetNameToken path \<in> set (propertyNames s)"
    and "LoadBlock (GetNameToken path) (rowGroup loc) s = Inr s1"
  shows "Has s path TypeName =
     Inr ((True, map_option VtValueTypeName
                   (block_type (expected_block pf (GetNameToken path) (rowGroup loc)))),
          put_block (GetNameToken path) (rowGroup loc)
            (expected_block pf (GetNameToken path) (rowGroup loc)) s1)"
  unfolding Has_TypeName_unfold [OF assms(2,3,4)]
  by (simp only: assms(5) load_then_index(1) [OF assms(1,5)] sum.case prod.case)

lemma AppendProperty_parts:
  assumes "IsPropertyPath (AppendProperty p field)"
  shows "GetPrimPath (AppendProperty p field) = p" "GetNameToken (AppendProperty p field) = field"
proof -
  from assms obtain a es where "p = PrimPath a es"
    "AppendProperty p field = PropertyPath a es field"
    by (cases p) (auto split: if_splits)
  then show "GetPrimPath (AppendProperty p field) = p"
    "GetNameToken (AppendProperty p field) = field" by simp_all
qed

lemma LoadBlock_returns:
  assumes "reader s = Some pf" "rg < length (row_groups pf)"
    and "find_column 0 (schema pf) field = Some c" "c < length (columns (row_groups pf ! rg))"
    and "\<not> supported (chunk_values (chunk_of pf rg c)) \<or> \<not> chunk_throws (chunk_of pf rg c)"
  shows "\<exists>s1. LoadBlock field rg s = Inr s1"
proof -
  have "\<not> length (row_groups pf) \<le> rg" "\<not> length (columns (row_groups pf ! rg)) \<le> c"
    using assms(2,4) by simp_all
  then show ?thesis
    using assms(5) by (auto simp add: LoadBlock_cases [OF assms(1)] assms(3))
qed

text \<open>
  C2: for a path \<open>p\<close> in the path index and a property name \<open>field\<close> for which the
  field path exists, when the column of the field is readable, of a supported type, and
  holds \<open>v\<close> at the storage location of \<open>p\<close>: \<^verbatim>\<open>Get\<close> with the selector
  \<^verbatim>\<open>default\<close> returns \<open>v\<close> as a value of the column's type, \<^verbatim>\<open>Get\<close> with the selector
  \<^verbatim>\<open>typeName\<close> returns the name of that type, and both calls return the same again
  afterwards. This holds in any data reached from a successful read by queries and
  mutation calls.
\<close>

theorem field_value_round_trip:
  assumes "reachable pf s" "index_find s p = Some loc" "field \<in> set (propertyNames s)"
    and "IsPropertyPath (AppendProperty p field)"
    and "is_column_of (schema pf) field c" "c < length (columns (row_groups pf ! rowGroup loc))"
    and "\<not> chunk_throws (chunk_of pf (rowGroup loc) c)"
    and "typed_value_at (chunk_values (chunk_of pf (rowGroup loc) c)) (rowOffset loc) = Some v"
  shows "\<exists>s1 t.
           Get s (AppendProperty p field) Default = Inr (v, s1) \<and>
           type_name_of (chunk_values (chunk_of pf (rowGroup loc) c)) = Some t \<and>
           Get s (AppendProperty p field) TypeName = Inr (VtToken t, s1) \<and>
           Get s1 (AppendProperty p field) Default = Inr (v, s1) \<and>
           Get s1 (AppendProperty p field) TypeName = Inr (VtToken t, s1) \<and>
           reachable pf s1"
proof -
  define path where "path = AppendProperty p field"
  define rg where "rg = rowGroup loc"
  define cv where "cv = chunk_values (chunk_of pf rg c)"
  define block where "block = decode_chunk (num_rows (row_groups pf ! rg)) cv"
  have pp: "IsPropertyPath path" using assms(4) by (simp add: path_def)
  have gp: "GetPrimPath path = p" and gn: "GetNameToken path = field"
    using AppendProperty_parts [OF assms(4)] by (simp_all add: path_def)
  from assms(1) have cons: "consistent pf s" by (rule reachable_consistent)
  then have rd: "reader s = Some pf"
    and rgb: "rg < length (row_groups pf)"
    and rob: "rowOffset loc < num_rows (row_groups pf ! rg)"
    using assms(2) by (simp_all add: consistent_def rg_def)
  from assms(5) have fc: "find_column 0 (schema pf) field = Some c"
    by (simp add: find_column_is_column_of)
  have eb: "expected_block pf field rg = block"
    by (simp add: expected_block_def fc block_def cv_def)
  have tv: "typed_value_at cv (rowOffset loc) = Some v"
    using assms(8) by (simp add: cv_def rg_def)
  then have sup: "supported cv" by (rule typed_value_supported)
  then obtain t where t: "type_name_of cv = Some t" using supported_type_name by blast
  have be: "block_element block (rowOffset loc) = Inr v"
    unfolding block_def by (rule block_element_decode [OF tv rob])
  from t obtain ty where ty: "block_type block = Some ty" "GetAsToken ty = t"
    using block_type_decode [of "num_rows (row_groups pf ! rg)" cv] by (auto simp add: block_def)
  have "\<exists>s0. LoadBlock field rg s = Inr s0"
    using assms(6,7) by (intro LoadBlock_returns [OF rd rgb fc]) (simp_all add: rg_def)
  then obtain s0 where l0: "LoadBlock field rg s = Inr s0" by blast
  define s1 where "s1 = put_block field rg block s0"
  have ix: "index_find s (GetPrimPath path) = Some loc" using assms(2) gp by simp
  have pn: "GetNameToken path \<in> set (propertyNames s)" using assms(3) gn by simp
  have l0': "LoadBlock (GetNameToken path) (rowGroup loc) s = Inr s0"
    using l0 by (simp add: gn rg_def)
  have g1: "Get s path Default = Inr (v, s1)"
    unfolding Get_field_Default [OF cons pp ix pn l0']
    using be eb by (simp add: gn rg_def [symmetric] s1_def)
  have g2: "Get s path TypeName = Inr (VtToken t, s1)"
    unfolding Get_field_TypeName [OF cons pp ix pn l0']
    using ty eb by (simp add: gn rg_def [symmetric] s1_def)
  have cons1: "consistent pf s1" and st: "same_structure s s1"
    using load_then_index(2,3) [OF cons l0] by (simp_all add: eb s1_def)
  have e1: "blockCache s1 field rg = Some block" by (simp add: s1_def put_block_def)
  have l1: "LoadBlock (GetNameToken path) (rowGroup loc) s1 = Inr s1"
    unfolding gn rg_def [symmetric] by (rule LoadBlock_hit) (simp add: e1)
  have idem: "put_block field rg block s1 = s1" by (rule put_block_idem [OF e1])
  have ix1: "index_find s1 (GetPrimPath path) = Some loc"
    using ix st by (simp add: index_find_def same_structure_def)
  have pn1: "GetNameToken path \<in> set (propertyNames s1)"
    using pn st by (simp add: same_structure_def)
  have g3: "Get s1 path Default = Inr (v, s1)"
    unfolding Get_field_Default [OF cons1 pp ix1 pn1 l1]
    using be eb idem by (simp add: gn rg_def [symmetric])
  have g4: "Get s1 path TypeName = Inr (VtToken t, s1)"
    unfolding Get_field_TypeName [OF cons1 pp ix1 pn1 l1]
    using ty eb idem by (simp add: gn rg_def [symmetric])
  have r1: "reachable pf s1" by (rule reachable.got [OF assms(1) g1])
  have "Get s (AppendProperty p field) Default = Inr (v, s1) \<and>
        type_name_of (chunk_values (chunk_of pf (rowGroup loc) c)) = Some t \<and>
        Get s (AppendProperty p field) TypeName = Inr (VtToken t, s1) \<and>
        Get s1 (AppendProperty p field) Default = Inr (v, s1) \<and>
        Get s1 (AppendProperty p field) TypeName = Inr (VtToken t, s1) \<and>
        reachable pf s1"
    using g1 g2 g3 g4 r1 t unfolding path_def cv_def rg_def by (intro conjI)
  then show ?thesis by (intro exI)
qed

theorem field_value_round_trip_witness:
  "\<exists>s1. Get (opened ''scene.parquet'') (AppendProperty (PrimPath True [''A'', ''B'']) ''temp'') Default
           = Inr (VtFloat 0x40400000, s1) \<and>
         Get (opened ''scene.parquet'') (AppendProperty (PrimPath True [''A'', ''B'']) ''temp'') TypeName
           = Inr (VtToken ''float'', s1) \<and>
         Get s1 (AppendProperty (PrimPath True [''A'', ''B'']) ''temp'') Default
           = Inr (VtFloat 0x40400000, s1)"
proof -
  have a: "index_find (opened ''scene.parquet'') (PrimPath True [''A'', ''B''])
      = Some \<lparr> rowGroup = 1, rowOffset = 0 \<rparr>"
    by code_simp
  have b: "''temp'' \<in> set (propertyNames (opened ''scene.parquet''))"
    by code_simp
  have c: "IsPropertyPath (AppendProperty (PrimPath True [''A'', ''B'']) ''temp'')"
    by code_simp
  have d: "is_column_of (schema example_file) ''temp'' 1"
    by (simp add: is_column_of_def example_file_def)
  have e: "1 < length (columns (row_groups example_file ! rowGroup \<lparr> rowGroup = 1, rowOffset = 0 \<rparr>))"
    by (simp add: example_file_def)
  have f: "\<not> chunk_throws (chunk_of example_file (rowGroup \<lparr> rowGroup = 1, rowOffset = 0 \<rparr>) 1)"
    by (simp add: chunk_of_def example_file_def)
  have g: "typed_value_at
      (chunk_values (chunk_of example_file (rowGroup \<lparr> rowGroup = 1, rowOffset = 0 \<rparr>) 1))
      (rowOffset \<lparr> rowGroup = 1, rowOffset = 0 \<rparr>) = Some (VtFloat 0x40400000)"
    by (simp add: chunk_of_def example_file_def)
  have h: "type_name_of
      (chunk_values (chunk_of example_file (rowGroup \<lparr> rowGroup = 1, rowOffset = 0 \<rparr>) 1))
      = Some ''float''"
    by (simp add: chunk_of_def example_file_def)
  from field_value_round_trip [OF reachable_scene a b c d e f g] h show ?thesis
    by (elim exE conjE) auto
qed

section \<open>Columns of an unsupported type\<close>

text \<open>
  For a field whose column has an unsupported type, \<^verbatim>\<open>_LoadBlock\<close> stores nothing,
  both \<^verbatim>\<open>Get\<close> selectors return the empty value and \<^verbatim>\<open>Has\<close> with \<^verbatim>\<open>default\<close> returns
  false; \<^verbatim>\<open>Has\<close> with \<^verbatim>\<open>typeName\<close> returns true and writes no value.
\<close>

lemma unsupported_column_queries:
  assumes "reachable pf s" "index_find s p = Some loc" "field \<in> set (propertyNames s)"
    and "IsPropertyPath (AppendProperty p field)"
    and "is_column_of (schema pf) field c" "c < length (columns (row_groups pf ! rowGroup loc))"
    and "\<not> supported (chunk_values (chunk_of pf (rowGroup loc) c))"
  shows "LoadBlock field (rowGroup loc) s = Inr s \<and>
         (\<exists>s1. Get s (AppendProperty p field) Default = Inr (VtEmpty, s1) \<and>
               Get s (AppendProperty p field) TypeName = Inr (VtEmpty, s1) \<and>
               Has s (AppendProperty p field) Default = Inr ((False, None), s1) \<and>
               Has s (AppendProperty p field) TypeName = Inr ((True, None), s1))"
proof -
  define path where "path = AppendProperty p field"
  define rg where "rg = rowGroup loc"
  define cv where "cv = chunk_values (chunk_of pf rg c)"
  have pp: "IsPropertyPath path" using assms(4) by (simp add: path_def)
  have gp: "GetPrimPath path = p" and gn: "GetNameToken path = field"
    using AppendProperty_parts [OF assms(4)] by (simp_all add: path_def)
  from assms(1) have cons: "consistent pf s" by (rule reachable_consistent)
  then have rd: "reader s = Some pf" and rgb: "rg < length (row_groups pf)"
    using assms(2) by (simp_all add: consistent_def rg_def)
  from assms(5) have fc: "find_column 0 (schema pf) field = Some c"
    by (simp add: find_column_is_column_of)
  have ns: "\<not> supported cv" using assms(7) by (simp add: cv_def rg_def)
  then have dc: "decode_chunk (num_rows (row_groups pf ! rg)) cv = VtEmpty"
    by (cases cv) simp_all
  have eb: "expected_block pf field rg = VtEmpty"
    by (simp add: expected_block_def fc dc [unfolded cv_def])
  have "\<not> length (row_groups pf) \<le> rg" "\<not> length (columns (row_groups pf ! rg)) \<le> c"
    using rgb assms(6) by (simp_all add: rg_def)
  then have l0: "LoadBlock field rg s = Inr s"
    using ns by (simp add: LoadBlock_cases [OF rd] fc cv_def)
  define s1 where "s1 = put_block field rg VtEmpty s"
  have ix: "index_find s (GetPrimPath path) = Some loc" using assms(2) gp by simp
  have pn: "GetNameToken path \<in> set (propertyNames s)" using assms(3) gn by simp
  have l0': "LoadBlock (GetNameToken path) (rowGroup loc) s = Inr s"
    using l0 by (simp add: gn rg_def)
  have g1: "Get s path Default = Inr (VtEmpty, s1)"
    unfolding Get_field_Default [OF cons pp ix pn l0']
    using eb by (simp add: gn rg_def [symmetric] s1_def)
  have g2: "Get s path TypeName = Inr (VtEmpty, s1)"
    unfolding Get_field_TypeName [OF cons pp ix pn l0']
    using eb by (simp add: gn rg_def [symmetric] s1_def)
  have h1: "Has s path Default = Inr ((False, None), s1)"
    unfolding Has_Default_unfold [OF pp ix pn] g1 by simp
  have h2: "Has s path TypeName = Inr ((True, None), s1)"
    unfolding Has_field_TypeName [OF cons pp ix pn l0']
    using eb by (simp add: gn rg_def [symmetric] s1_def)
  show ?thesis using l0 g1 g2 h1 h2 unfolding path_def rg_def by blast
qed

text \<open>
  C9 is not what the code does: in the example file \<^verbatim>\<open>stamp\<close> is a 96-bit integer
  column, and \<^verbatim>\<open>Has\<close> on \<^verbatim>\<open>/A/B.stamp\<close> with the selector \<^verbatim>\<open>typeName\<close> returns true
  without a value, while \<^verbatim>\<open>Has\<close> with \<^verbatim>\<open>default\<close> returns false and both \<^verbatim>\<open>Get\<close>
  selectors return the empty value.
\<close>

theorem Has_TypeName_unsupported_column:
  "map_sum id fst (Has (opened ''scene.parquet'') (PropertyPath True [''A'', ''B''] ''stamp'') TypeName)
     = Inr (True, None) \<and>
   map_sum id fst (Has (opened ''scene.parquet'') (PropertyPath True [''A'', ''B''] ''stamp'') Default)
     = Inr (False, None) \<and>
   map_sum id fst (Get (opened ''scene.parquet'') (PropertyPath True [''A'', ''B''] ''stamp'') TypeName)
     = Inr VtEmpty \<and>
   map_sum id fst (Get (opened ''scene.parquet'') (PropertyPath True [''A'', ''B''] ''stamp'') Default)
     = Inr VtEmpty"
  by code_simp

theorem Has_TypeName_unsupported_column_witness:
  "map_sum id fst (Has (opened ''scene.parquet'') (PropertyPath True [''A'', ''B''] ''stamp'') TypeName)
     \<noteq> map_sum id fst (Has (opened ''scene.parquet'') (PropertyPath True [''A'', ''B''] ''stamp'') Default)"
  using Has_TypeName_unsupported_column by simp

end
